theory Spec2Isabelle
  imports Complex_Main "HOL-Library.AList"
begin

section \<open>Values, loggers and log records\<close>

text \<open>
  The logging server of \<^verbatim>\<open>src/servers.js\<close> (the module that imports pino and
  AsyncLocalStorage). Loggable values are strings and numbers; an object literal such as
  \<^verbatim>\<open>{ "request.id": requestId }\<close> is the list of its key/value pairs in source order.
\<close>

datatype jsval = JStr string | JNum real

type_synonym bindings = "(string \<times> jsval) list"

datatype js_error = JsError string string

datatype level = Info | Warn | Error

text \<open>
  A pino logger is the list of the bindings it writes on every line (pino keeps them as
  the already serialised prefix of the line). \<^verbatim>\<open>parent.child(data)\<close> builds a new logger
  whose prefix is the parent's followed by \<^verbatim>\<open>data\<close>; the parent object is not written to.
  Keys that pino treats as options of \<^verbatim>\<open>child\<close> and values that are \<^verbatim>\<open>undefined\<close> do not
  occur in this program and are not modelled.
\<close>

record pino_logger =
  chindings :: bindings

definition logger :: pino_logger where
  \<comment> \<open>\<^verbatim>\<open>const logger = pino()\<close>\<close>
  "logger = \<lparr>chindings = []\<rparr>"

definition child :: "pino_logger \<Rightarrow> bindings \<Rightarrow> pino_logger" where
  "child parentLogger data = \<lparr>chindings = chindings parentLogger @ data\<rparr>"

text \<open>
  A written line: its level, the fields in the order pino serialises them (the logger's
  bindings first, the merging object of the call after them) and the message.
\<close>

record log_record =
  level :: level
  line_fields :: bindings
  msg :: string

text \<open>
  What a JSON reader sees for a key of a line: the last occurrence wins, which is why
  pino writes the bindings of the most recent \<^verbatim>\<open>child\<close> and the merging object last.
\<close>

definition field_of :: "log_record \<Rightarrow> string \<Rightarrow> jsval option" where
  "field_of r k = map_of (rev (line_fields r)) k"

section \<open>The process state\<close>

text \<open>
  The closure registered with \<^verbatim>\<open>res.on("finish", ...)\<close> captures \<^verbatim>\<open>start\<close>,
  \<^verbatim>\<open>reqLogger\<close> and \<^verbatim>\<open>res\<close>.
\<close>

datatype listener = CompletionHook real pino_logger nat

record response =
  statusCode :: int
  listeners :: "(string \<times> listener) list"
  body :: "bindings option"
  writableEnded :: bool
  writableFinished :: bool
  destroyed :: bool

record request =
  req_method :: string
  req_url :: string
  req_ip :: "string option"
  req_headers :: "(string \<times> string) list"

record fetch_response =
  ok :: bool
  status :: int
  statusText :: string

text \<open>
  A suspended \<^verbatim>\<open>await\<close> of the \<^verbatim>\<open>/fetch-user\<close> chain: what it waits for, the
  AsyncLocalStorage store that was current when it suspended (Node resumes the
  continuation with that store), and the local variables it closes over.
\<close>

datatype awaiting =
    AwaitFetch string
  | AwaitJson
  | AwaitFetchUser "js_error + bindings"

record task =
  t_store :: "nat option"
  t_userID :: int
  t_awaiting :: awaiting

text \<open>
  \<^verbatim>\<open>Map\<close> objects and responses are mutable objects held by reference: a reference is a
  number, \<open>heap\<close> and \<open>responses\<close> give the object behind it, \<open>next_addr\<close> and
  \<open>next_res\<close> are the next unused references. \<open>current\<close> is what
  \<^verbatim>\<open>asyncLocalStorage.getStore()\<close> returns to the code that is running (\<open>None\<close> for
  \<^verbatim>\<open>undefined\<close>). \<open>out\<close> is pino's destination. \<open>clock\<close> is the reading of
  \<^verbatim>\<open>performance.now()\<close>; \<open>uuid_gen n\<close> is what the \<open>n\<close>-th call of \<^verbatim>\<open>randomUUID()\<close>
  returns. \<open>tasks\<close> holds the suspended continuation of each request (requests are named
  by the reference of their response object), \<open>unhandled\<close> the rejections that no handler
  was attached to.
\<close>

record state =
  heap :: "nat \<Rightarrow> (string \<times> pino_logger) list"
  next_addr :: nat
  current :: "nat option"
  out :: "log_record list"
  clock :: real
  uuid_gen :: "nat \<Rightarrow> string"
  uuid_next :: nat
  responses :: "nat \<Rightarrow> response"
  next_res :: nat
  tasks :: "nat \<Rightarrow> task option"
  unhandled :: "js_error list"

section \<open>Library operations the program calls\<close>

definition pino_write :: "level \<Rightarrow> pino_logger \<Rightarrow> bindings \<Rightarrow> string \<Rightarrow> state \<Rightarrow> state" where
  "pino_write lv l obj m s =
     s\<lparr>out := out s @ [\<lparr>level = lv, line_fields = chindings l @ obj, msg = m\<rparr>]\<rparr>"

definition pino_info :: "pino_logger \<Rightarrow> bindings \<Rightarrow> string \<Rightarrow> state \<Rightarrow> state" where
  "pino_info = pino_write Info"

definition pino_warn :: "pino_logger \<Rightarrow> bindings \<Rightarrow> string \<Rightarrow> state \<Rightarrow> state" where
  "pino_warn = pino_write Warn"

definition pino_error :: "pino_logger \<Rightarrow> bindings \<Rightarrow> string \<Rightarrow> state \<Rightarrow> state" where
  "pino_error = pino_write Error"

definition performance_now :: "state \<Rightarrow> real \<times> state" where
  "performance_now s = (clock s, s)"

definition randomUUID :: "state \<Rightarrow> string \<times> state" where
  "randomUUID s = (uuid_gen s (uuid_next s), s\<lparr>uuid_next := Suc (uuid_next s)\<rparr>)"

definition new_Map :: "(string \<times> pino_logger) list \<Rightarrow> state \<Rightarrow> nat \<times> state" where
  \<comment> \<open>\<^verbatim>\<open>new Map(entries)\<close>: a new object holding a copy of the entries\<close>
  "new_Map entries s =
     (next_addr s, s\<lparr>heap := (heap s)(next_addr s := entries), next_addr := Suc (next_addr s)\<rparr>)"

definition Map_set :: "nat \<Rightarrow> string \<Rightarrow> pino_logger \<Rightarrow> state \<Rightarrow> state" where
  "Map_set a k v s = s\<lparr>heap := (heap s)(a := AList.update k v (heap s a))\<rparr>"

definition Map_get :: "nat \<Rightarrow> string \<Rightarrow> state \<Rightarrow> pino_logger option" where
  "Map_get a k s = map_of (heap s a) k"

definition getStore :: "state \<Rightarrow> nat option" where
  "getStore s = current s"

text \<open>
  \<^verbatim>\<open>asyncLocalStorage.run(store, callback)\<close>: the callback runs with \<^verbatim>\<open>store\<close> as the
  current store; its return value is returned and what it throws is thrown again, and in
  both cases the store that was current before is current again afterwards.
\<close>

definition als_run ::
  "nat \<Rightarrow> (state \<Rightarrow> (js_error + 'a) \<times> state) \<Rightarrow> state \<Rightarrow> (js_error + 'a) \<times> state" where
  "als_run store callback s =
     (case callback (s\<lparr>current := Some store\<rparr>) of
        (Inl e, s') \<Rightarrow> (Inl e, s'\<lparr>current := current s\<rparr>)
      | (Inr v, s') \<Rightarrow> (Inr v, s'\<lparr>current := current s\<rparr>))"

definition res_on :: "nat \<Rightarrow> string \<Rightarrow> listener \<Rightarrow> state \<Rightarrow> state" where
  "res_on res ev f s =
     s\<lparr>responses := (responses s)(res := (responses s res)\<lparr>listeners := listeners (responses s res) @ [(ev, f)]\<rparr>)\<rparr>"

section \<open>withLogContext and getLogger\<close>

definition withLogContext ::
  "bindings \<Rightarrow> (state \<Rightarrow> (js_error + 'a) \<times> state) \<Rightarrow> state \<Rightarrow> (js_error + 'a) \<times> state" where
  "withLogContext data callback s =
     (let store = getStore s;
          parentLogger = (case store of None \<Rightarrow> logger
                          | Some a \<Rightarrow> (case Map_get a ''logger'' s of None \<Rightarrow> logger | Some l \<Rightarrow> l));
          childLogger = child parentLogger data;
          (newStore, s1) = new_Map (case store of None \<Rightarrow> [] | Some a \<Rightarrow> heap s a) s;
          s2 = Map_set newStore ''logger'' childLogger s1
      in als_run newStore callback s2)"

definition getLogger :: "state \<Rightarrow> pino_logger" where
  "getLogger s =
     (case getStore s of None \<Rightarrow> logger
      | Some a \<Rightarrow> (case Map_get a ''logger'' s of None \<Rightarrow> logger | Some l \<Rightarrow> l))"

section \<open>The request middleware\<close>

definition requestId_of :: "request \<Rightarrow> state \<Rightarrow> string \<times> state" where
  \<comment> \<open>\<^verbatim>\<open>req.headers["x-request-id"] || randomUUID()\<close>: the empty string is falsy\<close>
  "requestId_of req s =
     (case map_of (req_headers req) ''x-request-id'' of
        None \<Rightarrow> randomUUID s
      | Some h \<Rightarrow> if h \<noteq> [] then (h, s) else randomUUID s)"

definition entry_fields :: "request \<Rightarrow> bindings" where
  \<comment> \<open>the merging object of the entry line; pino leaves out keys whose value is \<^verbatim>\<open>undefined\<close>\<close>
  "entry_fields req =
     [(''http.request.method'', JStr (req_method req)), (''url.path'', JStr (req_url req))]
     @ (case req_ip req of None \<Rightarrow> [] | Some a \<Rightarrow> [(''client.address'', JStr a)])
     @ (case map_of (req_headers req) ''user-agent'' of None \<Rightarrow> []
        | Some ua \<Rightarrow> [(''user_agent.original'', JStr ua)])"

definition on_finish :: "real \<Rightarrow> pino_logger \<Rightarrow> nat \<Rightarrow> state \<Rightarrow> state" where
  "on_finish start reqLogger res s =
     (let sc = statusCode (responses s res);
          (now, s1) = performance_now s;
          logData = [(''duration_ms'', JNum (now - start)), (''status_code'', JNum (of_int sc))]
      in if sc \<ge> 500 then pino_error reqLogger logData ''server error'' s1
         else if sc \<ge> 400 then pino_warn reqLogger logData ''client error'' s1
         else pino_info reqLogger logData ''request completed'' s1)"

definition middleware ::
  "request \<Rightarrow> nat \<Rightarrow> (state \<Rightarrow> (js_error + unit) \<times> state) \<Rightarrow> state \<Rightarrow> (js_error + unit) \<times> state" where
  "middleware req res next s =
     (let (start, s1) = performance_now s;
          (requestId, s2) = requestId_of req s1;
          reqLogger = child logger [(''request.id'', JStr requestId)];
          s3 = pino_info reqLogger (entry_fields req)
                 (''incoming '' @ req_method req @ '' request to '' @ req_url req) s2;
          s4 = res_on res ''finish'' (CompletionHook start reqLogger res) s3;
          (store, s5) = new_Map [] s4
      in als_run store
           (\<lambda>t. case getStore t of
                  None \<Rightarrow> (Inl (JsError ''TypeError'' ''Cannot read properties of undefined''), t)
                | Some a \<Rightarrow>
                    (case withLogContext [(''request.id'', JStr requestId)] next (Map_set a ''logger'' reqLogger t) of
                       (Inl e, t') \<Rightarrow> (Inl e, t')
                     | (Inr _, t') \<Rightarrow> (Inr (), t')))
           s5)"

section \<open>fetchUser and the /fetch-user route\<close>

fun digits :: "nat \<Rightarrow> string" where
  "digits n =
     (if n < 10 then [''0123456789'' ! n] else digits (n div 10) @ [''0123456789'' ! (n mod 10)])"

definition number_string :: "int \<Rightarrow> string" where
  \<comment> \<open>an integer inside a template string\<close>
  "number_string i = (if i < 0 then CHR ''-'' # digits (nat (- i)) else digits (nat i))"

definition suspend :: "awaiting \<Rightarrow> int \<Rightarrow> nat \<Rightarrow> state \<Rightarrow> state" where
  \<comment> \<open>an \<^verbatim>\<open>await\<close> on a pending promise: the continuation keeps the current store\<close>
  "suspend aw userID res s =
     s\<lparr>tasks := (tasks s)(res \<mapsto> \<lparr>t_store = current s, t_userID = userID, t_awaiting = aw\<rparr>)\<rparr>"

definition fetchUser_url :: "int \<Rightarrow> string" where
  "fetchUser_url uid = ''https://jsonplaceholder.typicode.com/users/'' @ number_string uid"

definition fetchUser_start :: "int \<Rightarrow> nat \<Rightarrow> state \<Rightarrow> state" where
  \<comment> \<open>\<^verbatim>\<open>fetchUser(id)\<close> up to \<^verbatim>\<open>await fetch(...)\<close>\<close>
  "fetchUser_start uid res s = suspend (AwaitFetch (fetchUser_url uid)) uid res s"

definition fetchUser_after_fetch :: "js_error + fetch_response \<Rightarrow> js_error + unit" where
  \<comment> \<open>from the settled \<^verbatim>\<open>fetch\<close> to \<^verbatim>\<open>await response.json()\<close>\<close>
  "fetchUser_after_fetch outcome =
     (case outcome of
        Inl e \<Rightarrow> Inl e
      | Inr response \<Rightarrow>
          if \<not> ok response
          then Inl (JsError ''Error''
                 (''Failed to fetch user: '' @ number_string (status response) @ '' '' @ statusText response))
          else Inr ())"

definition fetchUser_after_json ::
  "int \<Rightarrow> js_error + bindings \<Rightarrow> state \<Rightarrow> (js_error + bindings) \<times> state" where
  \<comment> \<open>from the settled \<^verbatim>\<open>response.json()\<close> to the return\<close>
  "fetchUser_after_json uid outcome s =
     (case outcome of
        Inl e \<Rightarrow> (Inl e, s)
      | Inr user \<Rightarrow>
          (Inr user,
           pino_info (getLogger s) []
             (''profile info for user '' @ number_string uid @ '' retrieved successfully'') s))"

definition res_json :: "nat \<Rightarrow> bindings \<Rightarrow> state \<Rightarrow> state" where
  "res_json res user s =
     s\<lparr>responses := (responses s)(res := (responses s res)\<lparr>body := Some user, writableEnded := True\<rparr>)\<rparr>"

definition fetch_user_arrow :: "int \<Rightarrow> nat \<Rightarrow> state \<Rightarrow> (js_error + unit) \<times> state" where
  \<comment> \<open>the callback given to \<^verbatim>\<open>withLogContext\<close>, up to \<^verbatim>\<open>await fetchUser(userID)\<close>;
      what it returns is a pending promise\<close>
  "fetch_user_arrow userID res s =
     (Inr (), fetchUser_start userID res (pino_info (getLogger s) [] ''fetching user data'' s))"

definition fetch_user_arrow_resume :: "nat \<Rightarrow> js_error + bindings \<Rightarrow> state \<Rightarrow> state" where
  \<comment> \<open>the callback after \<^verbatim>\<open>fetchUser\<close> settled: on a rejection the \<^verbatim>\<open>await\<close> throws and
      the promise of the callback, which nothing handles, is rejected\<close>
  "fetch_user_arrow_resume res r s =
     (case r of
        Inl e \<Rightarrow> s\<lparr>unhandled := unhandled s @ [e]\<rparr>
      | Inr user \<Rightarrow> res_json res user s)"

definition fetch_user_handler :: "real \<Rightarrow> nat \<Rightarrow> state \<Rightarrow> (js_error + unit) \<times> state" where
  \<comment> \<open>\<open>product\<close> is the number that \<^verbatim>\<open>Math.random() * 10\<close> evaluates to, so that
      \<^verbatim>\<open>Math.floor\<close> of it is its floor; the promise that \<^verbatim>\<open>withLogContext\<close> returns
      is dropped\<close>
  "fetch_user_handler product res s =
     (let userID = \<lfloor>product\<rfloor> + 1
      in case withLogContext [(''user.id'', JNum (of_int userID))] (fetch_user_arrow userID res) s of
           (Inl e, s') \<Rightarrow> (Inl e, s')
         | (Inr _, s') \<Rightarrow> (Inr (), s'))"

section \<open>The server: requests interleaved on one event loop\<close>

text \<open>
  Which route Express selects for a request is decided outside this module: a request
  reaches \<^verbatim>\<open>/fetch-user\<close> (the route carries the value of \<^verbatim>\<open>Math.random() * 10\<close> of that
  call) or no route at all, where Express answers 404.
\<close>

datatype route = FetchUser real | NotFound

definition not_found :: "nat \<Rightarrow> state \<Rightarrow> (js_error + unit) \<times> state" where
  "not_found res s =
     (Inr (), s\<lparr>responses := (responses s)(res := (responses s res)\<lparr>statusCode := 404, writableEnded := True\<rparr>)\<rparr>)"

definition route_handler :: "route \<Rightarrow> nat \<Rightarrow> state \<Rightarrow> (js_error + unit) \<times> state" where
  "route_handler rt res =
     (case rt of FetchUser product \<Rightarrow> fetch_user_handler product res | NotFound \<Rightarrow> not_found res)"

definition new_response :: "state \<Rightarrow> nat \<times> state" where
  "new_response s =
     (next_res s,
      s\<lparr>responses := (responses s)(next_res s :=
           \<lparr>statusCode = 200, listeners = [], body = None, writableEnded = False,
            writableFinished = False, destroyed = False\<rparr>),
        next_res := Suc (next_res s)\<rparr>)"

fun call_listener :: "listener \<Rightarrow> state \<Rightarrow> state" where
  "call_listener (CompletionHook start reqLogger res) s = on_finish start reqLogger res s"

definition emit :: "nat \<Rightarrow> string \<Rightarrow> state \<Rightarrow> state" where
  "emit res ev s =
     fold call_listener (map snd (filter (\<lambda>(n, f). n = ev) (listeners (responses s res)))) s"

text \<open>
  What Node does with a response: once the response was ended and handed to the
  operating system it emits \<^verbatim>\<open>finish\<close>, once; nothing is handed over on a connection
  that was closed before. A closed connection emits \<^verbatim>\<open>close\<close>.
\<close>

definition flush :: "nat \<Rightarrow> state \<Rightarrow> state" where
  "flush i s =
     (let r = responses s i
      in if i < next_res s \<and> writableEnded r \<and> \<not> writableFinished r \<and> \<not> destroyed r
         then emit i ''finish'' (s\<lparr>responses := (responses s)(i := r\<lparr>writableFinished := True\<rparr>)\<rparr>)
         else s)"

definition close_connection :: "nat \<Rightarrow> state \<Rightarrow> state" where
  "close_connection i s =
     (let r = responses s i
      in if i < next_res s \<and> \<not> destroyed r
         then emit i ''close'' (s\<lparr>responses := (responses s)(i := r\<lparr>destroyed := True\<rparr>)\<rparr>)
         else s)"

definition on_request :: "request \<Rightarrow> route \<Rightarrow> nat \<Rightarrow> state \<Rightarrow> state" where
  "on_request req rt res s = snd (middleware req res (route_handler rt res) s)"

definition on_fetch_settled :: "nat \<Rightarrow> task \<Rightarrow> js_error + fetch_response \<Rightarrow> state \<Rightarrow> state" where
  "on_fetch_settled i t outcome s =
     (case fetchUser_after_fetch outcome of
        Inl e \<Rightarrow> s\<lparr>tasks := (tasks s)(i \<mapsto> t\<lparr>t_awaiting := AwaitFetchUser (Inl e)\<rparr>)\<rparr>
      | Inr _ \<Rightarrow> s\<lparr>tasks := (tasks s)(i \<mapsto> t\<lparr>t_awaiting := AwaitJson\<rparr>)\<rparr>)"

definition on_json_settled :: "nat \<Rightarrow> task \<Rightarrow> js_error + bindings \<Rightarrow> state \<Rightarrow> state" where
  "on_json_settled i t outcome s =
     (case fetchUser_after_json (t_userID t) outcome s of
        (r, s') \<Rightarrow> s'\<lparr>tasks := (tasks s')(i \<mapsto> t\<lparr>t_awaiting := AwaitFetchUser r\<rparr>)\<rparr>)"

definition on_resume :: "nat \<Rightarrow> js_error + bindings \<Rightarrow> state \<Rightarrow> state" where
  "on_resume i r s = fetch_user_arrow_resume i r (s\<lparr>tasks := (tasks s)(i := None)\<rparr>)"

text \<open>
  The world is the process state together with two records kept for the statements
  below: every line written while request \<open>i\<close> was running, paired with \<open>i\<close>, and the
  \<^verbatim>\<open>requestId\<close> the middleware chose for request \<open>i\<close>.
\<close>

record world =
  st :: state
  emitted :: "(nat \<times> log_record) list"
  rids :: "nat \<Rightarrow> string"

definition in_chain :: "nat \<Rightarrow> nat option \<Rightarrow> (state \<Rightarrow> state) \<Rightarrow> world \<Rightarrow> world" where
  \<comment> \<open>one uninterrupted piece of request \<open>i\<close>, run with the store of its chain\<close>
  "in_chain i store seg w =
     (let s = st w;
          s' = (seg (s\<lparr>current := store\<rparr>))\<lparr>current := None\<rparr>
      in w\<lparr>st := s', emitted := emitted w @ map (Pair i) (drop (length (out s)) (out s'))\<rparr>)"

text \<open>
  What the event loop delivers, one uninterrupted piece of JavaScript at a time:
  the callback of \<^verbatim>\<open>app.listen\<close>; a request that reaches the request middleware (with the
  route Express will select for it); the settling of the \<^verbatim>\<open>fetch\<close> or of
  \<^verbatim>\<open>response.json()\<close> a request waits for; the resumption of the handler's callback once
  \<^verbatim>\<open>fetchUser\<close> has settled; a response handed over to the operating system; a closed
  connection; and the passing of time. An event that matches nothing pending changes
  nothing. Between two events no store is current.
\<close>

datatype event =
    Listening
  | Arrive request route
  | FetchSettled nat "js_error + fetch_response"
  | JsonSettled nat "js_error + bindings"
  | Resume nat
  | Flush nat
  | Close nat
  | Tick real

fun deliver :: "event \<Rightarrow> world \<Rightarrow> world" where
  "deliver Listening w = w\<lparr>st := pino_info logger [] ''Server listening on port 3000'' (st w)\<rparr>"
| "deliver (Arrive req rt) w =
     (let (res, s) = new_response (st w)
      in in_chain res None (on_request req rt res)
           (w\<lparr>st := s, rids := (rids w)(res := fst (requestId_of req s))\<rparr>))"
| "deliver (FetchSettled i outcome) w =
     (case tasks (st w) i of
        None \<Rightarrow> w
      | Some t \<Rightarrow>
          (case t_awaiting t of
             AwaitFetch url \<Rightarrow> in_chain i (t_store t) (on_fetch_settled i t outcome) w
           | _ \<Rightarrow> w))"
| "deliver (JsonSettled i outcome) w =
     (case tasks (st w) i of
        None \<Rightarrow> w
      | Some t \<Rightarrow>
          (case t_awaiting t of
             AwaitJson \<Rightarrow> in_chain i (t_store t) (on_json_settled i t outcome) w
           | _ \<Rightarrow> w))"
| "deliver (Resume i) w =
     (case tasks (st w) i of
        None \<Rightarrow> w
      | Some t \<Rightarrow>
          (case t_awaiting t of
             AwaitFetchUser r \<Rightarrow> in_chain i (t_store t) (on_resume i r) w
           | _ \<Rightarrow> w))"
| "deliver (Flush i) w = in_chain i None (flush i) w"
| "deliver (Close i) w = in_chain i None (close_connection i) w"
| "deliver (Tick d) w = w\<lparr>st := (st w)\<lparr>clock := clock (st w) + max 0 d\<rparr>\<rparr>"

definition run :: "event list \<Rightarrow> world \<Rightarrow> world" where
  "run evs w = fold deliver evs w"

definition init :: "(nat \<Rightarrow> string) \<Rightarrow> world" where
  "init gen =
     \<lparr>st = \<lparr>heap = (\<lambda>_. []), next_addr = 0, current = None, out = [], clock = 0,
             uuid_gen = gen, uuid_next = 0,
             responses = (\<lambda>_. \<lparr>statusCode = 200, listeners = [], body = None,
                                 writableEnded = False, writableFinished = False, destroyed = False\<rparr>),
             next_res = 0, tasks = (\<lambda>_. None), unhandled = []\<rparr>,
      emitted = [], rids = (\<lambda>_. [])\<rparr>"

definition is_completion :: "log_record \<Rightarrow> bool" where
  \<comment> \<open>a completion record is a line that carries \<^verbatim>\<open>duration_ms\<close> and \<^verbatim>\<open>status_code\<close>\<close>
  "is_completion r =
     (map_of (line_fields r) ''duration_ms'' \<noteq> None \<and> map_of (line_fields r) ''status_code'' \<noteq> None)"

definition records_of :: "nat \<Rightarrow> world \<Rightarrow> log_record list" where
  "records_of i w = map snd (filter (\<lambda>(j, r). j = i) (emitted w))"

definition completion_records :: "nat \<Rightarrow> world \<Rightarrow> log_record list" where
  "completion_records i w = filter is_completion (records_of i w)"

section \<open>Invariants of the event loop and example inputs\<close>

text \<open>
  A logger is scoped to a request when a reader of its lines finds the request's id
  under \<^verbatim>\<open>request.id\<close> and its bindings use no key but \<^verbatim>\<open>request.id\<close> and \<^verbatim>\<open>user.id\<close>.
\<close>

definition scoped :: "string \<Rightarrow> pino_logger \<Rightarrow> bool" where
  "scoped rid l \<longleftrightarrow>
     map_of (rev (chindings l)) ''request.id'' = Some (JStr rid) \<and>
     set (map fst (chindings l)) \<subseteq> {''request.id'', ''user.id''}"

text \<open>The state in which a suspended continuation runs when the event loop resumes it.\<close>

definition resumed :: "state \<Rightarrow> task \<Rightarrow> state" where
  "resumed s t = s\<lparr>current := t_store t\<rparr>"

text \<open>
  A suspended chain belongs to a request that exists and is not answered yet, it holds
  an allocated store, and \<^verbatim>\<open>getLogger()\<close> will return a logger scoped to its request.
\<close>

definition task_ok :: "world \<Rightarrow> nat \<Rightarrow> task \<Rightarrow> bool" where
  "task_ok w i t \<longleftrightarrow>
     i < next_res (st w) \<and> \<not> writableEnded (responses (st w) i) \<and> body (responses (st w) i) = None \<and>
     (case t_store t of None \<Rightarrow> False | Some a \<Rightarrow> a < next_addr (st w)) \<and>
     scoped (rids w i) (getLogger (resumed (st w) t))"

text \<open>
  The only listener of a response is the completion hook of its own request, closing
  over \<^verbatim>\<open>logger.child({ "request.id": requestId })\<close>.
\<close>

definition hook_ok :: "world \<Rightarrow> nat \<Rightarrow> bool" where
  "hook_ok w i \<longleftrightarrow>
     (\<exists>start. listeners (responses (st w) i) =
        [(''finish'', CompletionHook start (child logger [(''request.id'', JStr (rids w i))]) i)])"

text \<open>
  The invariant of the event loop: between events no store is current, every suspended
  chain and every response is as above, and no two suspended chains hold the same store.
\<close>

definition wf_world :: "world \<Rightarrow> bool" where
  "wf_world w \<longleftrightarrow>
     current (st w) = None \<and>
     (\<forall>i t. tasks (st w) i = Some t \<longrightarrow> task_ok w i t) \<and>
     (\<forall>i<next_res (st w). hook_ok w i) \<and>
     (\<forall>i j t u. tasks (st w) i = Some t \<and> tasks (st w) j = Some u \<and> t_store t = t_store u \<longrightarrow> i = j)"

text \<open>
  The invariant of the written lines: a line of request \<open>i\<close> carries the id of request
  \<open>i\<close>, a completion record has the three keys of the hook and nothing else, and a
  request has one completion record when its response has finished and none before.
\<close>

definition record_ok :: "world \<Rightarrow> nat \<Rightarrow> log_record \<Rightarrow> bool" where
  "record_ok w i r \<longleftrightarrow>
     i < next_res (st w) \<and> field_of r ''request.id'' = Some (JStr (rids w i)) \<and>
     (is_completion r \<longrightarrow> map fst (line_fields r) = [''request.id'', ''duration_ms'', ''status_code''])"

definition finished_count :: "world \<Rightarrow> nat \<Rightarrow> nat" where
  "finished_count w i = (if i < next_res (st w) \<and> writableFinished (responses (st w) i) then 1 else 0)"

definition emitted_ok :: "world \<Rightarrow> bool" where
  "emitted_ok w \<longleftrightarrow>
     (\<forall>i r. (i, r) \<in> set (emitted w) \<longrightarrow> record_ok w i r) \<and>
     (\<forall>i. length (completion_records i w) = finished_count w i)"

definition new_completions :: "nat \<Rightarrow> (nat \<times> log_record) list \<Rightarrow> nat" where
  "new_completions i new = length (filter is_completion (map snd (filter (\<lambda>(j, r). j = i) new)))"

text \<open>No event writes to a Map that exists already, and the generator only moves forward.\<close>

definition frame_ok :: "world \<Rightarrow> world \<Rightarrow> bool" where
  "frame_ok w w' \<longleftrightarrow>
     (\<forall>a<next_addr (st w). heap (st w') a = heap (st w) a) \<and>
     next_addr (st w) \<le> next_addr (st w') \<and>
     uuid_gen (st w') = uuid_gen (st w) \<and> uuid_next (st w) \<le> uuid_next (st w') \<and>
     (\<forall>i<next_res (st w). rids w' i = rids w i) \<and> next_res (st w) \<le> next_res (st w')"

text \<open>A request whose chain has ended without a response never gets one.\<close>

definition abandoned :: "world \<Rightarrow> nat \<Rightarrow> bool" where
  "abandoned w i \<longleftrightarrow>
     i < next_res (st w) \<and> tasks (st w) i = None \<and>
     body (responses (st w) i) = None \<and> \<not> writableEnded (responses (st w) i)"

text \<open>
  Concrete inputs: a generator that never repeats a value, a request with and a request
  without the \<^verbatim>\<open>x-request-id\<close> header, and runs of the event loop over them.
\<close>

definition example_gen :: "nat \<Rightarrow> string" where
  "example_gen n = ''uuid-'' @ replicate (Suc n) CHR ''a''"

definition example_req_a :: request where
  "example_req_a = \<lparr>req_method = ''GET'', req_url = ''/fetch-user'', req_ip = Some ''::1'',
                     req_headers = [(''x-request-id'', ''abc-123'')]\<rparr>"

definition example_req_b :: request where
  "example_req_b = \<lparr>req_method = ''GET'', req_url = ''/fetch-user'', req_ip = None,
                     req_headers = [(''user-agent'', ''curl'')]\<rparr>"

definition example_ok :: "js_error + fetch_response" where
  "example_ok = Inr \<lparr>ok = True, status = 200, statusText = ''OK''\<rparr>"

definition example_arrivals :: "event list" where
  "example_arrivals =
     [Arrive example_req_a (FetchUser 3.5), Arrive example_req_b (FetchUser 9.5),
      FetchSettled 1 example_ok, FetchSettled 0 example_ok,
      JsonSettled 1 (Inr [(''id'', JNum 10)]), JsonSettled 0 (Inr [(''id'', JNum 4)])]"

definition example_interleaved :: world where
  "example_interleaved = run example_arrivals (init example_gen)"

definition example_completion :: "event list" where
  "example_completion = example_arrivals @ [Resume 0, Tick 5, Flush 0, Flush 0, Close 0, Flush 0]"

definition example_completed :: world where
  "example_completed = run example_completion (init example_gen)"

definition example_pending :: world where
  "example_pending = run [Arrive example_req_a (FetchUser 3.5)] (init example_gen)"

definition example_failed :: world where
  "example_failed =
     run [Close 0, Flush 0]
       (run [FetchSettled 0 (Inl (JsError ''TypeError'' ''fetch failed'')), Resume 0] example_pending)"

definition example_closed_early :: world where
  "example_closed_early =
     run [Arrive example_req_a (FetchUser 3.5), Close 0, FetchSettled 0 example_ok,
          JsonSettled 0 (Inr [(''id'', JNum 4)]), Resume 0, Flush 0]
       (init example_gen)"

definition example_same_header :: world where
  "example_same_header =
     run [Arrive example_req_a (FetchUser 3.5), Arrive example_req_a (FetchUser 9.5)] (init example_gen)"

definition example_third :: world where
  "example_third = deliver (Arrive example_req_b NotFound) example_interleaved"

definition example_status :: "int \<Rightarrow> state" where
  "example_status c =
     (st (init example_gen))\<lparr>responses := (\<lambda>_. \<lparr>statusCode = c, listeners = [], body = None,
        writableEnded = True, writableFinished = False, destroyed = False\<rparr>)\<rparr>"

definition example_empty_store :: state where
  "example_empty_store = (snd (new_Map [] (st (init example_gen))))\<lparr>current := Some 0\<rparr>"

definition example_scoped :: state where
  "example_scoped =
     Map_set 0 ''logger'' (child logger [(''request.id'', JStr ''abc-123'')]) example_empty_store"

definition example_throwing :: "state \<Rightarrow> (js_error + unit) \<times> state" where
  "example_throwing t = (Inl (JsError ''Error'' ''boom''), pino_info (getLogger t) [] ''working'' t)"

section \<open>Properties\<close>

lemmas lib_defs = pino_write_def pino_info_def pino_warn_def pino_error_def performance_now_def
  randomUUID_def new_Map_def Map_set_def Map_get_def getStore_def als_run_def res_on_def

lemma withLogContext_unfold:
  "withLogContext data callback s =
     (case callback (s\<lparr>next_addr := Suc (next_addr s),
                       heap := (heap s)(next_addr s :=
                          AList.update ''logger'' (child (getLogger s) data)
                            (case current s of None \<Rightarrow> [] | Some a \<Rightarrow> heap s a)),
                       current := Some (next_addr s)\<rparr>) of
        (r, s') \<Rightarrow> (r, s'\<lparr>current := current s\<rparr>))"
  by (auto simp add: withLogContext_def getLogger_def lib_defs Let_def split: prod.splits sum.splits option.splits)

lemma requestId_of_state:
  "snd (requestId_of req s) = s\<lparr>uuid_next := uuid_next (snd (requestId_of req s))\<rparr>"
  by (simp add: requestId_of_def randomUUID_def split: option.splits)

lemma middleware_unfold:
  "middleware req res next s =
     (case next (s\<lparr>uuid_next := uuid_next (snd (requestId_of req s)),
                out := out s @ [\<lparr>level = Info,
                                 line_fields = (''request.id'', JStr (fst (requestId_of req s))) # entry_fields req,
                                 msg = ''incoming '' @ req_method req @ '' request to '' @ req_url req\<rparr>],
                responses := (responses s)(res := (responses s res)\<lparr>listeners :=
                     listeners (responses s res) @
                     [(''finish'', CompletionHook (clock s)
                         (child logger [(''request.id'', JStr (fst (requestId_of req s)))]) res)]\<rparr>),
                next_addr := Suc (Suc (next_addr s)),
                heap := (heap s)(next_addr s :=
                            [(''logger'', child logger [(''request.id'', JStr (fst (requestId_of req s)))])],
                          Suc (next_addr s) :=
                            [(''logger'', child (child logger [(''request.id'', JStr (fst (requestId_of req s)))])
                                            [(''request.id'', JStr (fst (requestId_of req s)))])]),
                current := Some (Suc (next_addr s))\<rparr>) of
           (r, s') \<Rightarrow> (case r of Inl e \<Rightarrow> Inl e | Inr _ \<Rightarrow> Inr (), s'\<lparr>current := current s\<rparr>))"
proof (cases "map_of (req_headers req) ''x-request-id''")
  case None
  then show ?thesis
    by (simp add: middleware_def requestId_of_def withLogContext_unfold getLogger_def lib_defs child_def logger_def
        split: prod.splits sum.splits)
next
  case (Some h)
  then show ?thesis
    by (cases "h = []")
       (simp_all add: middleware_def requestId_of_def withLogContext_unfold getLogger_def lib_defs child_def logger_def
        split: prod.splits sum.splits)
qed

lemma on_request_NotFound:
  "on_request req NotFound res s =
     s\<lparr>uuid_next := uuid_next (snd (requestId_of req s)),
       out := out s @ [\<lparr>level = Info,
                        line_fields = (''request.id'', JStr (fst (requestId_of req s))) # entry_fields req,
                        msg = ''incoming '' @ req_method req @ '' request to '' @ req_url req\<rparr>],
       responses := (responses s)(res := (responses s res)\<lparr>
            listeners := listeners (responses s res) @
              [(''finish'', CompletionHook (clock s)
                  (child logger [(''request.id'', JStr (fst (requestId_of req s)))]) res)],
            statusCode := 404, writableEnded := True\<rparr>),
       next_addr := Suc (Suc (next_addr s)),
       heap := (heap s)(next_addr s :=
                   [(''logger'', child logger [(''request.id'', JStr (fst (requestId_of req s)))])],
                 Suc (next_addr s) :=
                   [(''logger'', child (child logger [(''request.id'', JStr (fst (requestId_of req s)))])
                                   [(''request.id'', JStr (fst (requestId_of req s)))])])\<rparr>"
  by (rule state.equality)
     (simp_all add: on_request_def route_handler_def not_found_def middleware_unfold)

lemma on_request_FetchUser:
  "on_request req (FetchUser product) res s =
     s\<lparr>uuid_next := uuid_next (snd (requestId_of req s)),
       out := out s @ [\<lparr>level = Info,
                        line_fields = (''request.id'', JStr (fst (requestId_of req s))) # entry_fields req,
                        msg = ''incoming '' @ req_method req @ '' request to '' @ req_url req\<rparr>,
                       \<lparr>level = Info,
                        line_fields = [(''request.id'', JStr (fst (requestId_of req s))),
                                       (''request.id'', JStr (fst (requestId_of req s))),
                                       (''user.id'', JNum (of_int (\<lfloor>product\<rfloor> + 1)))],
                        msg = ''fetching user data''\<rparr>],
       responses := (responses s)(res := (responses s res)\<lparr>
            listeners := listeners (responses s res) @
              [(''finish'', CompletionHook (clock s)
                  (child logger [(''request.id'', JStr (fst (requestId_of req s)))]) res)]\<rparr>),
       next_addr := Suc (Suc (Suc (next_addr s))),
       heap := (heap s)(next_addr s :=
                   [(''logger'', child logger [(''request.id'', JStr (fst (requestId_of req s)))])],
                 Suc (next_addr s) :=
                   [(''logger'', child (child logger [(''request.id'', JStr (fst (requestId_of req s)))])
                                   [(''request.id'', JStr (fst (requestId_of req s)))])],
                 Suc (Suc (next_addr s)) :=
                   [(''logger'', child (child (child logger [(''request.id'', JStr (fst (requestId_of req s)))])
                                   [(''request.id'', JStr (fst (requestId_of req s)))])
                                   [(''user.id'', JNum (of_int (\<lfloor>product\<rfloor> + 1)))])]),
       tasks := (tasks s)(res \<mapsto> \<lparr>t_store = Some (Suc (Suc (next_addr s))),
                                    t_userID = \<lfloor>product\<rfloor> + 1,
                                    t_awaiting = AwaitFetch (fetchUser_url (\<lfloor>product\<rfloor> + 1))\<rparr>)\<rparr>"
  by (rule state.equality)
     (simp_all add: on_request_def route_handler_def fetch_user_handler_def fetch_user_arrow_def
      fetchUser_start_def suspend_def middleware_unfold withLogContext_unfold getLogger_def
      getStore_def Map_get_def pino_info_def pino_write_def child_def logger_def Let_def)

lemma flush_hook:
  assumes "listeners (responses s i) = [(''finish'', CompletionHook start l i)]"
  shows "flush i s =
     (if i < next_res s \<and> writableEnded (responses s i) \<and> \<not> writableFinished (responses s i)
          \<and> \<not> destroyed (responses s i)
      then s\<lparr>responses := (responses s)(i := (responses s i)\<lparr>writableFinished := True\<rparr>),
             out := out s @ [\<lparr>level = (if statusCode (responses s i) \<ge> 500 then Error
                                       else if statusCode (responses s i) \<ge> 400 then Warn else Info),
                              line_fields = chindings l @
                                [(''duration_ms'', JNum (clock s - start)),
                                 (''status_code'', JNum (of_int (statusCode (responses s i))))],
                              msg = (if statusCode (responses s i) \<ge> 500 then ''server error''
                                     else if statusCode (responses s i) \<ge> 400 then ''client error''
                                     else ''request completed'')\<rparr>]\<rparr>
      else s)"
  using assms
  by (simp add: flush_def emit_def on_finish_def performance_now_def pino_error_def pino_warn_def
      pino_info_def pino_write_def Let_def)

lemma close_hook:
  assumes "listeners (responses s i) = [(''finish'', CompletionHook start l i)]"
  shows "close_connection i s =
     (if i < next_res s \<and> \<not> destroyed (responses s i)
      then s\<lparr>responses := (responses s)(i := (responses s i)\<lparr>destroyed := True\<rparr>)\<rparr>
      else s)"
  using assms by (simp add: close_connection_def emit_def Let_def)

lemma requestId_of_upd [simp]:
  "fst (requestId_of req (s\<lparr>responses := r\<rparr>)) = fst (requestId_of req s)"
  "fst (requestId_of req (s\<lparr>next_res := n\<rparr>)) = fst (requestId_of req s)"
  "fst (requestId_of req (s\<lparr>current := c\<rparr>)) = fst (requestId_of req s)"
  "uuid_next (snd (requestId_of req (s\<lparr>responses := r\<rparr>))) = uuid_next (snd (requestId_of req s))"
  "uuid_next (snd (requestId_of req (s\<lparr>next_res := n\<rparr>))) = uuid_next (snd (requestId_of req s))"
  "uuid_next (snd (requestId_of req (s\<lparr>current := c\<rparr>))) = uuid_next (snd (requestId_of req s))"
  by (simp_all add: requestId_of_def randomUUID_def split: option.splits)

lemma scoped_child3:
  "scoped rid (child (child (child logger [(''request.id'', JStr rid)]) [(''request.id'', JStr rid)]) [(''user.id'', v)])"
  by (simp add: scoped_def child_def logger_def)

lemma wf_worldI:
  assumes "current (st w) = None"
    and "\<And>i t. tasks (st w) i = Some t \<Longrightarrow> task_ok w i t"
    and "\<And>i. i < next_res (st w) \<Longrightarrow> hook_ok w i"
    and "\<And>i j t u. tasks (st w) i = Some t \<Longrightarrow> tasks (st w) j = Some u \<Longrightarrow> t_store t = t_store u \<Longrightarrow> i = j"
  shows "wf_world w"
  unfolding wf_world_def using assms by blast

lemma wf_currentD: "wf_world w \<Longrightarrow> current (st w) = None"
  by (simp add: wf_world_def)

lemma wf_taskD: "wf_world w \<Longrightarrow> tasks (st w) i = Some t \<Longrightarrow> task_ok w i t"
  by (simp add: wf_world_def)

lemma wf_hookD: "wf_world w \<Longrightarrow> i < next_res (st w) \<Longrightarrow> hook_ok w i"
  by (simp add: wf_world_def)

lemma wf_distinctD:
  "wf_world w \<Longrightarrow> tasks (st w) i = Some t \<Longrightarrow> tasks (st w) j = Some u \<Longrightarrow> t_store t = t_store u \<Longrightarrow> i = j"
  unfolding wf_world_def by blast

lemma wf_fresh_task:
  assumes "wf_world w" and "next_res (st w) \<le> i"
  shows "tasks (st w) i = None"
proof (cases "tasks (st w) i")
  case (Some t)
  from wf_taskD[OF assms(1) Some] assms(2) show ?thesis by (simp add: task_ok_def)
qed simp

lemma task_ok_frame:
  assumes "task_ok w i t"
    and "next_res (st w) \<le> next_res (st w')"
    and "responses (st w') i = responses (st w) i"
    and "next_addr (st w) \<le> next_addr (st w')"
    and "\<And>a. a < next_addr (st w) \<Longrightarrow> heap (st w') a = heap (st w) a"
    and "rids w' i = rids w i"
  shows "task_ok w' i t"
  using assms
  by (auto simp: task_ok_def getLogger_def getStore_def Map_get_def resumed_def split: option.splits)

lemma hook_ok_frame:
  assumes "hook_ok w i"
    and "listeners (responses (st w') i) = listeners (responses (st w) i)"
    and "rids w' i = rids w i"
  shows "hook_ok w' i"
  using assms by (simp add: hook_ok_def)

lemma wf_world_cong:
  assumes wf: "wf_world w"
    and "current (st w') = current (st w)" "tasks (st w') = tasks (st w)"
    and "next_res (st w') = next_res (st w)" "responses (st w') = responses (st w)"
    and "next_addr (st w') = next_addr (st w)" "heap (st w') = heap (st w)" "rids w' = rids w"
  shows "wf_world w'"
proof (rule wf_worldI)
  show "current (st w') = None" using wf assms(2) by (simp add: wf_currentD)
next
  fix i t assume "tasks (st w') i = Some t"
  then have "task_ok w i t" using wf assms(3) by (simp add: wf_taskD)
  then show "task_ok w' i t" by (rule task_ok_frame) (simp_all add: assms)
next
  fix i assume "i < next_res (st w')"
  then have "hook_ok w i" using wf assms(4) by (simp add: wf_hookD)
  then show "hook_ok w' i" by (rule hook_ok_frame) (simp_all add: assms)
next
  fix i j t u
  assume "tasks (st w') i = Some t" "tasks (st w') j = Some u" "t_store t = t_store u"
  then show "i = j" using wf_distinctD[OF wf, of i t j u] assms(3) by simp
qed

lemma wf_init: "wf_world (init gen)"
  by (simp add: wf_world_def init_def)

lemma wf_Listening: "wf_world w \<Longrightarrow> wf_world (deliver Listening w)"
  by (erule wf_world_cong) (simp_all add: pino_info_def pino_write_def)

lemma wf_Tick: "wf_world w \<Longrightarrow> wf_world (deliver (Tick d) w)"
  by (erule wf_world_cong) simp_all

lemma deliver_Arrive_NotFound:
  "deliver (Arrive req NotFound) w =
     w\<lparr>st := (on_request req NotFound (next_res (st w)) ((snd (new_response (st w)))\<lparr>current := None\<rparr>))\<lparr>current := None\<rparr>,
       emitted := emitted w @ [(next_res (st w),
           \<lparr>level = Info,
            line_fields = (''request.id'', JStr (fst (requestId_of req (st w)))) # entry_fields req,
            msg = ''incoming '' @ req_method req @ '' request to '' @ req_url req\<rparr>)],
       rids := (rids w)(next_res (st w) := fst (requestId_of req (st w)))\<rparr>"
  by (rule world.equality)
     (simp_all add: Let_def new_response_def in_chain_def on_request_NotFound)

lemma wf_Arrive_NotFound:
  assumes wf: "wf_world w"
  shows "wf_world (deliver (Arrive req NotFound) w)"
proof -
  define w' where "w' = deliver (Arrive req NotFound) w"
  note eq = w'_def[unfolded deliver_Arrive_NotFound]
  have cur: "current (st w') = None" by (simp add: eq)
  have tasks': "tasks (st w') = tasks (st w)"
    by (simp add: eq new_response_def on_request_NotFound)
  have nres: "next_res (st w') = Suc (next_res (st w))"
    by (simp add: eq new_response_def on_request_NotFound)
  have resp: "\<And>i. i \<noteq> next_res (st w) \<Longrightarrow> responses (st w') i = responses (st w) i"
    by (simp add: eq new_response_def on_request_NotFound)
  have rid: "\<And>i. i \<noteq> next_res (st w) \<Longrightarrow> rids w' i = rids w i"
    by (simp add: eq)
  have naddr: "next_addr (st w) \<le> next_addr (st w')"
    by (simp add: eq new_response_def on_request_NotFound)
  have hp: "\<And>a. a < next_addr (st w) \<Longrightarrow> heap (st w') a = heap (st w) a"
    by (simp add: eq new_response_def on_request_NotFound)
  have new: "hook_ok w' (next_res (st w))"
    by (simp add: eq new_response_def on_request_NotFound hook_ok_def)
  have "wf_world w'"
  proof (rule wf_worldI)
    show "current (st w') = None" by (rule cur)
  next
    fix i t assume "tasks (st w') i = Some t"
    then have ok: "task_ok w i t" using wf by (simp add: tasks' wf_taskD)
    then have "i \<noteq> next_res (st w)" by (simp add: task_ok_def)
    then show "task_ok w' i t"
      by - (rule task_ok_frame[OF ok], simp_all add: nres resp rid naddr hp)
  next
    fix i assume lt: "i < next_res (st w')"
    show "hook_ok w' i"
    proof (cases "i = next_res (st w)")
      case True then show ?thesis using new by simp
    next
      case False
      with lt have "i < next_res (st w)" by (simp add: nres)
      then have "hook_ok w i" using wf by (simp add: wf_hookD)
      then show ?thesis using False by - (erule hook_ok_frame, simp_all add: resp rid)
    qed
  next
    fix i j t u
    assume "tasks (st w') i = Some t" "tasks (st w') j = Some u" "t_store t = t_store u"
    then show "i = j" using wf_distinctD[OF wf, of i t j u] by (simp add: tasks')
  qed
  then show ?thesis by (simp only: w'_def)
qed

lemma getLogger_resumed_cong:
  assumes "t_store t' = t_store t"
    and "\<And>a. t_store t = Some a \<Longrightarrow> heap s' a = heap s a"
  shows "getLogger (resumed s' t') = getLogger (resumed s t)"
  using assms by (simp add: getLogger_def getStore_def Map_get_def resumed_def split: option.splits)

lemma wf_world_step:
  assumes wf: "wf_world w"
    and cur: "current (st w') = None"
    and nres: "next_res (st w) \<le> next_res (st w')" "next_res (st w') \<le> Suc (next_res (st w))"
    and naddr: "next_addr (st w) \<le> next_addr (st w')"
    and hp: "\<And>a. a < next_addr (st w) \<Longrightarrow> heap (st w') a = heap (st w) a"
    and rid: "\<And>i. i < next_res (st w) \<Longrightarrow> rids w' i = rids w i"
    and lst: "\<And>i. i < next_res (st w) \<Longrightarrow>
                listeners (responses (st w') i) = listeners (responses (st w) i)"
    and new_hook: "\<And>i. next_res (st w) \<le> i \<Longrightarrow> i < next_res (st w') \<Longrightarrow> hook_ok w' i"
    and old_task: "\<And>i t. tasks (st w') i = Some t \<Longrightarrow> i < next_res (st w) \<Longrightarrow>
                (\<exists>t0. tasks (st w) i = Some t0 \<and> t_store t = t_store t0) \<and>
                \<not> writableEnded (responses (st w') i) \<and> body (responses (st w') i) = None"
    and new_task: "\<And>i t. tasks (st w') i = Some t \<Longrightarrow> next_res (st w) \<le> i \<Longrightarrow>
                task_ok w' i t \<and> (\<exists>a. t_store t = Some a \<and> next_addr (st w) \<le> a)"
  shows "wf_world w'"
proof (rule wf_worldI)
  show "current (st w') = None" by (rule cur)
next
  fix i t assume T: "tasks (st w') i = Some t"
  show "task_ok w' i t"
  proof (cases "i < next_res (st w)")
    case True
    from old_task[OF T True] obtain t0 where t0: "tasks (st w) i = Some t0" "t_store t = t_store t0"
      and r: "\<not> writableEnded (responses (st w') i)" "body (responses (st w') i) = None" by blast
    from wf_taskD[OF wf t0(1)] have ok: "task_ok w i t0" .
    then obtain a where a: "t_store t0 = Some a" "a < next_addr (st w)"
      by (auto simp: task_ok_def split: option.splits)
    have "getLogger (resumed (st w') t) = getLogger (resumed (st w) t0)"
      by (rule getLogger_resumed_cong) (use t0 a hp in auto)
    with ok True r a t0 nres naddr rid[OF True] show ?thesis
      by (simp add: task_ok_def)
  next
    case False
    then show ?thesis using new_task[OF T] by simp
  qed
next
  fix i assume lt: "i < next_res (st w')"
  show "hook_ok w' i"
  proof (cases "i < next_res (st w)")
    case True
    from wf_hookD[OF wf True] show ?thesis
      by (rule hook_ok_frame) (simp_all add: lst[OF True] rid[OF True])
  next
    case False
    then show ?thesis using new_hook lt by simp
  qed
next
  fix i j t u
  assume T: "tasks (st w') i = Some t" and U: "tasks (st w') j = Some u" and eq: "t_store t = t_store u"
  have old: "\<exists>t0 a. tasks (st w) k = Some t0 \<and> t_store v = t_store t0 \<and> t_store t0 = Some a \<and> a < next_addr (st w)"
    if "tasks (st w') k = Some v" "k < next_res (st w)" for k v
  proof -
    from old_task[OF that] obtain t0 where t0: "tasks (st w) k = Some t0" "t_store v = t_store t0" by blast
    from wf_taskD[OF wf t0(1)] obtain a where "t_store t0 = Some a" "a < next_addr (st w)"
      by (auto simp: task_ok_def split: option.splits)
    with t0 show ?thesis by blast
  qed
  have new: "\<exists>a. t_store v = Some a \<and> next_addr (st w) \<le> a \<and> k = next_res (st w)"
    if "tasks (st w') k = Some v" "\<not> k < next_res (st w)" for k v
  proof -
    from that new_task[OF that(1)] have ok: "task_ok w' k v" and a: "\<exists>a. t_store v = Some a \<and> next_addr (st w) \<le> a"
      by simp_all
    from ok have "k < next_res (st w')" by (simp add: task_ok_def)
    with that(2) nres have "k = next_res (st w)" by simp
    with a show ?thesis by blast
  qed
  show "i = j"
  proof (cases "i < next_res (st w)")
    case True
    note i = old[OF T True]
    show ?thesis
    proof (cases "j < next_res (st w)")
      case True
      note j = old[OF U True]
      from i j eq show ?thesis using wf_distinctD[OF wf] by (metis)
    next
      case False
      from i new[OF U False] eq show ?thesis by auto
    qed
  next
    case False
    note i = new[OF T False]
    show ?thesis
    proof (cases "j < next_res (st w)")
      case True
      from i old[OF U True] eq show ?thesis by auto
    next
      case False
      from i new[OF U False] show ?thesis by auto
    qed
  qed
qed

lemma deliver_Arrive_FetchUser:
  "deliver (Arrive req (FetchUser product)) w =
     w\<lparr>st := (on_request req (FetchUser product) (next_res (st w))
                ((snd (new_response (st w)))\<lparr>current := None\<rparr>))\<lparr>current := None\<rparr>,
       emitted := emitted w @
         [(next_res (st w),
           \<lparr>level = Info,
            line_fields = (''request.id'', JStr (fst (requestId_of req (st w)))) # entry_fields req,
            msg = ''incoming '' @ req_method req @ '' request to '' @ req_url req\<rparr>),
          (next_res (st w),
           \<lparr>level = Info,
            line_fields = [(''request.id'', JStr (fst (requestId_of req (st w)))),
                           (''request.id'', JStr (fst (requestId_of req (st w)))),
                           (''user.id'', JNum (of_int (\<lfloor>product\<rfloor> + 1)))],
            msg = ''fetching user data''\<rparr>)],
       rids := (rids w)(next_res (st w) := fst (requestId_of req (st w)))\<rparr>"
  by (rule world.equality)
     (simp_all add: Let_def new_response_def in_chain_def on_request_FetchUser)

lemma deliver_FetchSettled:
  assumes "tasks (st w) i = Some t" "t_awaiting t = AwaitFetch url"
  shows "deliver (FetchSettled i outcome) w =
     w\<lparr>st := (st w)\<lparr>current := None,
                     tasks := (tasks (st w))(i \<mapsto> t\<lparr>t_awaiting :=
                        (case fetchUser_after_fetch outcome of
                           Inl e \<Rightarrow> AwaitFetchUser (Inl e) | Inr _ \<Rightarrow> AwaitJson)\<rparr>)\<rparr>\<rparr>"
  using assms
  by (cases "fetchUser_after_fetch outcome")
     (auto simp: in_chain_def Let_def on_fetch_settled_def intro!: world.equality state.equality)

lemma deliver_JsonSettled:
  assumes "tasks (st w) i = Some t" "t_awaiting t = AwaitJson"
  shows "deliver (JsonSettled i outcome) w =
     (case outcome of
        Inl e \<Rightarrow> w\<lparr>st := (st w)\<lparr>current := None,
                     tasks := (tasks (st w))(i \<mapsto> t\<lparr>t_awaiting := AwaitFetchUser (Inl e)\<rparr>)\<rparr>\<rparr>
      | Inr user \<Rightarrow>
          w\<lparr>st := (st w)\<lparr>current := None,
                 out := out (st w) @
                   [\<lparr>level = Info, line_fields = chindings (getLogger (resumed (st w) t)),
                     msg = ''profile info for user '' @ number_string (t_userID t) @ '' retrieved successfully''\<rparr>],
                 tasks := (tasks (st w))(i \<mapsto> t\<lparr>t_awaiting := AwaitFetchUser (Inr user)\<rparr>)\<rparr>,
            emitted := emitted w @
              [(i, \<lparr>level = Info, line_fields = chindings (getLogger (resumed (st w) t)),
                    msg = ''profile info for user '' @ number_string (t_userID t) @ '' retrieved successfully''\<rparr>)]\<rparr>)"
  using assms
  by (cases outcome)
     (auto simp: in_chain_def Let_def on_json_settled_def fetchUser_after_json_def resumed_def
        pino_info_def pino_write_def intro!: world.equality state.equality)

lemma deliver_Resume:
  assumes "tasks (st w) i = Some t" "t_awaiting t = AwaitFetchUser r"
  shows "deliver (Resume i) w =
     (case r of
        Inl e \<Rightarrow> w\<lparr>st := (st w)\<lparr>current := None, tasks := (tasks (st w))(i := None),
                                 unhandled := unhandled (st w) @ [e]\<rparr>\<rparr>
      | Inr user \<Rightarrow>
          w\<lparr>st := (st w)\<lparr>current := None, tasks := (tasks (st w))(i := None),
                 responses := (responses (st w))(i := (responses (st w) i)\<lparr>body := Some user,
                                                                           writableEnded := True\<rparr>)\<rparr>\<rparr>)"
  using assms
  by (cases r)
     (auto simp: in_chain_def Let_def on_resume_def fetch_user_arrow_resume_def res_json_def
        intro!: world.equality state.equality)

lemma deliver_Flush:
  assumes "listeners (responses (st w) i) = [(''finish'', CompletionHook start l i)]"
    and "current (st w) = None"
  shows "deliver (Flush i) w =
     (if i < next_res (st w) \<and> writableEnded (responses (st w) i)
          \<and> \<not> writableFinished (responses (st w) i) \<and> \<not> destroyed (responses (st w) i)
      then w\<lparr>st := (st w)\<lparr>responses := (responses (st w))(i := (responses (st w) i)\<lparr>writableFinished := True\<rparr>),
                    out := out (st w) @
                      [\<lparr>level = (if statusCode (responses (st w) i) \<ge> 500 then Error
                                  else if statusCode (responses (st w) i) \<ge> 400 then Warn else Info),
                        line_fields = chindings l @
                           [(''duration_ms'', JNum (clock (st w) - start)),
                            (''status_code'', JNum (of_int (statusCode (responses (st w) i))))],
                        msg = (if statusCode (responses (st w) i) \<ge> 500 then ''server error''
                               else if statusCode (responses (st w) i) \<ge> 400 then ''client error''
                               else ''request completed'')\<rparr>]\<rparr>,
             emitted := emitted w @
               [(i, \<lparr>level = (if statusCode (responses (st w) i) \<ge> 500 then Error
                                  else if statusCode (responses (st w) i) \<ge> 400 then Warn else Info),
                        line_fields = chindings l @
                           [(''duration_ms'', JNum (clock (st w) - start)),
                            (''status_code'', JNum (of_int (statusCode (responses (st w) i))))],
                        msg = (if statusCode (responses (st w) i) \<ge> 500 then ''server error''
                               else if statusCode (responses (st w) i) \<ge> 400 then ''client error''
                               else ''request completed'')\<rparr>)]\<rparr>
      else w)"
proof -
  have l: "listeners (responses (st w\<lparr>current := None\<rparr>) i) = [(''finish'', CompletionHook start l i)]"
    using assms(1) by simp
  show ?thesis
    using assms(2)
    by (auto simp: in_chain_def Let_def flush_hook[OF l] intro!: world.equality state.equality)
qed

lemma deliver_Flush_unknown:
  assumes "\<not> i < next_res (st w)" and "current (st w) = None"
  shows "deliver (Flush i) w = w"
  using assms by (auto simp: in_chain_def Let_def flush_def intro!: world.equality state.equality)

lemma deliver_Close:
  assumes "listeners (responses (st w) i) = [(''finish'', CompletionHook start l i)]"
    and "current (st w) = None"
  shows "deliver (Close i) w =
     (if i < next_res (st w) \<and> \<not> destroyed (responses (st w) i)
      then w\<lparr>st := (st w)\<lparr>responses := (responses (st w))(i := (responses (st w) i)\<lparr>destroyed := True\<rparr>)\<rparr>\<rparr>
      else w)"
proof -
  have l: "listeners (responses (st w\<lparr>current := None\<rparr>) i) = [(''finish'', CompletionHook start l i)]"
    using assms(1) by simp
  show ?thesis
    using assms(2)
    by (auto simp: in_chain_def Let_def close_hook[OF l] intro!: world.equality state.equality)
qed

lemma deliver_Close_unknown:
  assumes "\<not> i < next_res (st w)" and "current (st w) = None"
  shows "deliver (Close i) w = w"
  using assms by (auto simp: in_chain_def Let_def close_connection_def intro!: world.equality state.equality)

lemma wf_Arrive_FetchUser:
  assumes wf: "wf_world w"
  shows "wf_world (deliver (Arrive req (FetchUser product)) w)"
proof -
  define w' where "w' = deliver (Arrive req (FetchUser product)) w"
  note eq = w'_def[unfolded deliver_Arrive_FetchUser]
  have fresh: "tasks (st w) (next_res (st w)) = None"
    using wf by (simp add: wf_fresh_task)
  have "wf_world w'"
  proof (rule wf_world_step[OF wf])
    show "current (st w') = None" by (simp add: eq)
    show "next_res (st w) \<le> next_res (st w')" "next_res (st w') \<le> Suc (next_res (st w))"
      by (simp_all add: eq new_response_def on_request_FetchUser)
    show "next_addr (st w) \<le> next_addr (st w')"
      by (simp add: eq new_response_def on_request_FetchUser)
    show "heap (st w') a = heap (st w) a" if "a < next_addr (st w)" for a
      using that by (simp add: eq new_response_def on_request_FetchUser)
    show "rids w' i = rids w i" if "i < next_res (st w)" for i
      using that by (simp add: eq)
    show "listeners (responses (st w') i) = listeners (responses (st w) i)" if "i < next_res (st w)" for i
      using that by (simp add: eq new_response_def on_request_FetchUser)
    show "hook_ok w' i" if "next_res (st w) \<le> i" "i < next_res (st w')" for i
    proof -
      from that have "i = next_res (st w)" by (simp add: eq new_response_def on_request_FetchUser)
      then show ?thesis by (simp add: eq new_response_def on_request_FetchUser hook_ok_def)
    qed
    show "(\<exists>t0. tasks (st w) i = Some t0 \<and> t_store t = t_store t0) \<and>
           \<not> writableEnded (responses (st w') i) \<and> body (responses (st w') i) = None"
      if "tasks (st w') i = Some t" "i < next_res (st w)" for i t
    proof -
      from that have T: "tasks (st w) i = Some t"
        by (simp add: eq new_response_def on_request_FetchUser)
      from wf_taskD[OF wf T] that(2) show ?thesis
        by (simp add: T task_ok_def eq new_response_def on_request_FetchUser)
    qed
    show "task_ok w' i t \<and> (\<exists>a. t_store t = Some a \<and> next_addr (st w) \<le> a)"
      if "tasks (st w') i = Some t" "next_res (st w) \<le> i" for i t
    proof (cases "i = next_res (st w)")
      case True
      with that(1) show ?thesis
        by (auto simp: eq new_response_def on_request_FetchUser task_ok_def resumed_def
            getLogger_def getStore_def Map_get_def scoped_child3)
    next
      case False
      with that have "tasks (st w) i = Some t"
        by (simp add: eq new_response_def on_request_FetchUser)
      with wf_fresh_task[OF wf that(2)] show ?thesis by simp
    qed
  qed
  then show ?thesis by (simp only: w'_def)
qed

lemma wf_unchanged_responses:
  assumes wf: "wf_world w"
    and cur: "current (st w') = None"
    and "next_res (st w') = next_res (st w)" "next_addr (st w') = next_addr (st w)"
    and "heap (st w') = heap (st w)" "rids w' = rids w"
    and lst: "\<And>i. listeners (responses (st w') i) = listeners (responses (st w) i)"
    and old_task: "\<And>i t. tasks (st w') i = Some t \<Longrightarrow>
                (\<exists>t0. tasks (st w) i = Some t0 \<and> t_store t = t_store t0) \<and>
                writableEnded (responses (st w') i) = writableEnded (responses (st w) i) \<and>
                body (responses (st w') i) = body (responses (st w) i)"
  shows "wf_world w'"
proof (rule wf_world_step[OF wf])
  fix i t assume T: "tasks (st w') i = Some t" and "i < next_res (st w)"
  from old_task[OF T] obtain t0 where t0: "tasks (st w) i = Some t0" "t_store t = t_store t0"
    and r: "writableEnded (responses (st w') i) = writableEnded (responses (st w) i)"
           "body (responses (st w') i) = body (responses (st w) i)" by blast
  from wf_taskD[OF wf t0(1)] t0 r
  show "(\<exists>t0. tasks (st w) i = Some t0 \<and> t_store t = t_store t0) \<and>
           \<not> writableEnded (responses (st w') i) \<and> body (responses (st w') i) = None"
    by (simp add: task_ok_def)
next
  fix i t assume T: "tasks (st w') i = Some t" and n: "next_res (st w) \<le> i"
  from old_task[OF T] obtain t0 where "tasks (st w) i = Some t0" by blast
  with wf_fresh_task[OF wf n]
  show "task_ok w' i t \<and> (\<exists>a. t_store t = Some a \<and> next_addr (st w) \<le> a)" by simp
qed (simp_all add: assms)

lemma wf_FetchSettled:
  assumes wf: "wf_world w"
  shows "wf_world (deliver (FetchSettled i outcome) w)"
proof (cases "tasks (st w) i")
  case None
  then show ?thesis using wf by simp
next
  case (Some t)
  show ?thesis
  proof (cases "t_awaiting t")
    case (AwaitFetch url)
    show ?thesis
      unfolding deliver_FetchSettled[OF Some AwaitFetch]
      by (rule wf_unchanged_responses[OF wf]) (auto simp: Some split: if_splits)
  qed (use Some wf in simp_all)
qed

lemma wf_JsonSettled:
  assumes wf: "wf_world w"
  shows "wf_world (deliver (JsonSettled i outcome) w)"
proof (cases "tasks (st w) i")
  case None
  then show ?thesis using wf by simp
next
  case (Some t)
  show ?thesis
  proof (cases "t_awaiting t")
    case AwaitJson
    show ?thesis
      unfolding deliver_JsonSettled[OF Some AwaitJson]
      by (cases outcome; rule wf_unchanged_responses[OF wf]) (auto simp: Some split: if_splits)
  qed (use Some wf in simp_all)
qed

lemma wf_Resume:
  assumes wf: "wf_world w"
  shows "wf_world (deliver (Resume i) w)"
proof (cases "tasks (st w) i")
  case None
  then show ?thesis using wf by simp
next
  case (Some t)
  show ?thesis
  proof (cases "t_awaiting t")
    case (AwaitFetchUser r)
    show ?thesis
      unfolding deliver_Resume[OF Some AwaitFetchUser]
      by (cases r; rule wf_unchanged_responses[OF wf]) (auto simp: Some split: if_splits)
  qed (use Some wf in simp_all)
qed

lemma wf_Flush:
  assumes wf: "wf_world w"
  shows "wf_world (deliver (Flush i) w)"
proof (cases "i < next_res (st w)")
  case True
  from wf_hookD[OF wf True] obtain start where
    h: "listeners (responses (st w) i) =
          [(''finish'', CompletionHook start (child logger [(''request.id'', JStr (rids w i))]) i)]"
    by (auto simp: hook_ok_def)
  show ?thesis
    unfolding deliver_Flush[OF h wf_currentD[OF wf]]
    apply (split if_split)
    apply (intro conjI impI)
     apply (rule wf_unchanged_responses[OF wf]; auto simp: wf_currentD[OF wf])
    apply (rule wf)
    done
next
  case False
  then show ?thesis using wf by (simp only: deliver_Flush_unknown[OF False wf_currentD[OF wf]])
qed

lemma wf_Close:
  assumes wf: "wf_world w"
  shows "wf_world (deliver (Close i) w)"
proof (cases "i < next_res (st w)")
  case True
  from wf_hookD[OF wf True] obtain start where
    h: "listeners (responses (st w) i) =
          [(''finish'', CompletionHook start (child logger [(''request.id'', JStr (rids w i))]) i)]"
    by (auto simp: hook_ok_def)
  show ?thesis
    unfolding deliver_Close[OF h wf_currentD[OF wf]]
    apply (split if_split)
    apply (intro conjI impI)
     apply (rule wf_unchanged_responses[OF wf]; auto simp: wf_currentD[OF wf])
    apply (rule wf)
    done
next
  case False
  then show ?thesis using wf by (simp only: deliver_Close_unknown[OF False wf_currentD[OF wf]])
qed

lemma wf_deliver: "wf_world w \<Longrightarrow> wf_world (deliver e w)"
proof (cases e)
  case (Arrive req rt)
  assume "wf_world w"
  then show ?thesis unfolding Arrive
    by (cases rt) (simp_all only: wf_Arrive_FetchUser wf_Arrive_NotFound)
qed (simp_all only: wf_Listening wf_Tick wf_FetchSettled wf_JsonSettled wf_Resume wf_Flush wf_Close)

lemma run_snoc: "run (evs @ [e]) w = deliver e (run evs w)"
  by (simp add: run_def)

lemma wf_run: "wf_world (run evs (init gen))"
proof (induction evs rule: rev_induct)
  case Nil
  show ?case by (simp add: run_def wf_init)
next
  case (snoc e evs)
  then show ?case by (simp only: run_snoc wf_deliver)
qed

lemma completion_records_append:
  "emitted w' = emitted w @ new \<Longrightarrow>
   length (completion_records i w') = length (completion_records i w) + new_completions i new"
  by (simp add: completion_records_def records_of_def new_completions_def)

lemma emitted_step:
  assumes ok: "emitted_ok w"
    and nres: "next_res (st w) \<le> next_res (st w')"
    and rid: "\<And>i. i < next_res (st w) \<Longrightarrow> rids w' i = rids w i"
    and em: "emitted w' = emitted w @ new"
    and new_ok: "\<And>i r. (i, r) \<in> set new \<Longrightarrow> record_ok w' i r"
    and cnt: "\<And>i. finished_count w' i = finished_count w i + new_completions i new"
  shows "emitted_ok w'"
  unfolding emitted_ok_def
proof (intro conjI allI impI)
  fix i r assume "(i, r) \<in> set (emitted w')"
  then consider "(i, r) \<in> set (emitted w)" | "(i, r) \<in> set new" by (auto simp: em)
  then show "record_ok w' i r"
  proof cases
    case 1
    with ok have r: "record_ok w i r" by (simp add: emitted_ok_def)
    then have "i < next_res (st w)" by (simp add: record_ok_def)
    with r nres rid[of i] show ?thesis by (simp add: record_ok_def)
  next
    case 2
    then show ?thesis by (rule new_ok)
  qed
next
  fix i
  from ok have "length (completion_records i w) = finished_count w i" by (simp add: emitted_ok_def)
  then show "length (completion_records i w') = finished_count w' i"
    by (simp add: completion_records_append[OF em] cnt)
qed

lemma emitted_same:
  assumes ok: "emitted_ok w"
    and "next_res (st w') = next_res (st w)" "rids w' = rids w" "emitted w' = emitted w"
    and "\<And>i. writableFinished (responses (st w') i) = writableFinished (responses (st w) i)"
  shows "emitted_ok w'"
  by (rule emitted_step[OF ok, where new = "[]"])
     (simp_all add: assms finished_count_def new_completions_def)

lemma entry_fields_keys:
  "set (map fst (entry_fields req)) \<subseteq>
     {''http.request.method'', ''url.path'', ''client.address'', ''user_agent.original''}"
  by (auto simp: entry_fields_def split: option.splits)

lemma map_of_absent: "k \<notin> set (map fst xs) \<Longrightarrow> map_of xs k = None"
  by (simp add: map_of_eq_None_iff)

lemma entry_no_key:
  assumes "k \<notin> {''http.request.method'', ''url.path'', ''client.address'', ''user_agent.original''}"
  shows "map_of (entry_fields req) k = None" "map_of (rev (entry_fields req)) k = None"
  using assms entry_fields_keys[of req] by (auto simp: map_of_eq_None_iff)

lemma entry_record_ok:
  "field_of \<lparr>level = lv, line_fields = (''request.id'', JStr rid) # entry_fields req, msg = m\<rparr> ''request.id''
     = Some (JStr rid)"
  "\<not> is_completion \<lparr>level = lv, line_fields = (''request.id'', JStr rid) # entry_fields req, msg = m\<rparr>"
  by (simp_all add: field_of_def is_completion_def entry_no_key map_add_def)

lemma fetching_record_ok:
  "field_of \<lparr>level = lv, line_fields = [(''request.id'', JStr rid), (''request.id'', JStr rid), (''user.id'', v)],
             msg = m\<rparr> ''request.id'' = Some (JStr rid)"
  "\<not> is_completion \<lparr>level = lv,
             line_fields = [(''request.id'', JStr rid), (''request.id'', JStr rid), (''user.id'', v)], msg = m\<rparr>"
  by (simp_all add: field_of_def is_completion_def)

lemma scoped_record_ok:
  assumes "scoped rid l"
  shows "field_of \<lparr>level = lv, line_fields = chindings l, msg = m\<rparr> ''request.id'' = Some (JStr rid)"
    and "\<not> is_completion \<lparr>level = lv, line_fields = chindings l, msg = m\<rparr>"
proof -
  show "field_of \<lparr>level = lv, line_fields = chindings l, msg = m\<rparr> ''request.id'' = Some (JStr rid)"
    using assms by (simp add: scoped_def field_of_def)
  have "''duration_ms'' \<notin> set (map fst (chindings l))"
    using assms by (auto simp: scoped_def)
  then show "\<not> is_completion \<lparr>level = lv, line_fields = chindings l, msg = m\<rparr>"
    by (simp add: is_completion_def map_of_eq_None_iff)
qed

lemma emitted_Arrive:
  assumes ok: "emitted_ok w" and wf: "wf_world w"
  shows "emitted_ok (deliver (Arrive req rt) w)"
proof (cases rt)
  case NotFound
  define w' where "w' = deliver (Arrive req NotFound) w"
  note eq = w'_def[unfolded deliver_Arrive_NotFound]
  have "emitted_ok w'"
  proof (rule emitted_step[OF ok])
    show "next_res (st w) \<le> next_res (st w')" by (simp add: eq new_response_def on_request_NotFound)
    show "rids w' i = rids w i" if "i < next_res (st w)" for i using that by (simp add: eq)
    show "emitted w' = emitted w @ [(next_res (st w),
           \<lparr>level = Info,
            line_fields = (''request.id'', JStr (fst (requestId_of req (st w)))) # entry_fields req,
            msg = ''incoming '' @ req_method req @ '' request to '' @ req_url req\<rparr>)]"
      by (simp add: eq)
    show "record_ok w' i r" if "(i, r) \<in> set [(next_res (st w),
           \<lparr>level = Info,
            line_fields = (''request.id'', JStr (fst (requestId_of req (st w)))) # entry_fields req,
            msg = ''incoming '' @ req_method req @ '' request to '' @ req_url req\<rparr>)]" for i r
      using that by (simp add: record_ok_def entry_record_ok eq new_response_def on_request_NotFound)
    show "finished_count w' i = finished_count w i + new_completions i [(next_res (st w),
           \<lparr>level = Info,
            line_fields = (''request.id'', JStr (fst (requestId_of req (st w)))) # entry_fields req,
            msg = ''incoming '' @ req_method req @ '' request to '' @ req_url req\<rparr>)]" for i
      by (simp add: finished_count_def new_completions_def entry_record_ok eq new_response_def
          on_request_NotFound less_Suc_eq)
  qed
  then show ?thesis by (simp only: w'_def NotFound)
next
  case (FetchUser product)
  define w' where "w' = deliver (Arrive req (FetchUser product)) w"
  note eq = w'_def[unfolded deliver_Arrive_FetchUser]
  let ?new = "[(next_res (st w),
           \<lparr>level = Info,
            line_fields = (''request.id'', JStr (fst (requestId_of req (st w)))) # entry_fields req,
            msg = ''incoming '' @ req_method req @ '' request to '' @ req_url req\<rparr>),
          (next_res (st w),
           \<lparr>level = Info,
            line_fields = [(''request.id'', JStr (fst (requestId_of req (st w)))),
                           (''request.id'', JStr (fst (requestId_of req (st w)))),
                           (''user.id'', JNum (of_int (\<lfloor>product\<rfloor> + 1)))],
            msg = ''fetching user data''\<rparr>)]"
  have "emitted_ok w'"
  proof (rule emitted_step[OF ok])
    show "next_res (st w) \<le> next_res (st w')" by (simp add: eq new_response_def on_request_FetchUser)
    show "rids w' i = rids w i" if "i < next_res (st w)" for i using that by (simp add: eq)
    show "emitted w' = emitted w @ ?new" by (simp add: eq)
    show "record_ok w' i r" if "(i, r) \<in> set ?new" for i r
      using that
      by (auto simp: record_ok_def entry_record_ok fetching_record_ok eq new_response_def
          on_request_FetchUser)
    show "finished_count w' i = finished_count w i + new_completions i ?new" for i
      by (simp add: finished_count_def new_completions_def entry_record_ok fetching_record_ok eq
          new_response_def on_request_FetchUser less_Suc_eq)
  qed
  then show ?thesis by (simp only: w'_def FetchUser)
qed

lemma emitted_FetchSettled:
  assumes ok: "emitted_ok w"
  shows "emitted_ok (deliver (FetchSettled i outcome) w)"
proof (cases "tasks (st w) i")
  case None
  then show ?thesis using ok by simp
next
  case (Some t)
  show ?thesis
  proof (cases "t_awaiting t")
    case (AwaitFetch url)
    show ?thesis
      unfolding deliver_FetchSettled[OF Some AwaitFetch]
      by (rule emitted_same[OF ok]) simp_all
  qed (use Some ok in simp_all)
qed

lemma emitted_Resume:
  assumes ok: "emitted_ok w"
  shows "emitted_ok (deliver (Resume i) w)"
proof (cases "tasks (st w) i")
  case None
  then show ?thesis using ok by simp
next
  case (Some t)
  show ?thesis
  proof (cases "t_awaiting t")
    case (AwaitFetchUser r)
    show ?thesis
      unfolding deliver_Resume[OF Some AwaitFetchUser]
      by (cases r; rule emitted_same[OF ok]) simp_all
  qed (use Some ok in simp_all)
qed

lemma emitted_JsonSettled:
  assumes ok: "emitted_ok w" and wf: "wf_world w"
  shows "emitted_ok (deliver (JsonSettled i outcome) w)"
proof (cases "tasks (st w) i")
  case None
  then show ?thesis using ok by simp
next
  case (Some t)
  from wf_taskD[OF wf Some] have sc: "scoped (rids w i) (getLogger (resumed (st w) t))"
    and lt: "i < next_res (st w)"
    by (simp_all add: task_ok_def)
  show ?thesis
  proof (cases "t_awaiting t")
    case AwaitJson
    show ?thesis
    proof (cases outcome)
      case (Inl e)
      show ?thesis
        unfolding deliver_JsonSettled[OF Some AwaitJson] Inl
        by (simp, rule emitted_same[OF ok]) simp_all
    next
      case (Inr user)
      let ?r = "\<lparr>level = Info, line_fields = chindings (getLogger (resumed (st w) t)),
                  msg = ''profile info for user '' @ number_string (t_userID t) @ '' retrieved successfully''\<rparr>"
      show ?thesis
        unfolding deliver_JsonSettled[OF Some AwaitJson] Inr
        apply simp
        apply (rule emitted_step[OF ok, where new = "[(i, ?r)]"])
        apply (simp_all add: record_ok_def scoped_record_ok[OF sc] lt finished_count_def new_completions_def)
        done
    qed
  qed (use Some ok in simp_all)
qed

lemma emitted_Close:
  assumes ok: "emitted_ok w" and wf: "wf_world w"
  shows "emitted_ok (deliver (Close i) w)"
proof (cases "i < next_res (st w)")
  case True
  from wf_hookD[OF wf True] obtain start where
    h: "listeners (responses (st w) i) =
          [(''finish'', CompletionHook start (child logger [(''request.id'', JStr (rids w i))]) i)]"
    by (auto simp: hook_ok_def)
  show ?thesis
    unfolding deliver_Close[OF h wf_currentD[OF wf]]
    apply (split if_split)
    apply (intro conjI impI)
     apply (rule emitted_same[OF ok]; simp)
    apply (rule ok)
    done
next
  case False
  then show ?thesis using ok by (simp only: deliver_Close_unknown[OF False wf_currentD[OF wf]])
qed

lemma completion_record_ok:
  "field_of \<lparr>level = lv, line_fields = chindings (child logger [(''request.id'', JStr rid)]) @
                [(''duration_ms'', d), (''status_code'', c)], msg = m\<rparr> ''request.id'' = Some (JStr rid)"
  "is_completion \<lparr>level = lv, line_fields = chindings (child logger [(''request.id'', JStr rid)]) @
                [(''duration_ms'', d), (''status_code'', c)], msg = m\<rparr>"
  "map fst (chindings (child logger [(''request.id'', JStr rid)]) @
                [(''duration_ms'', d), (''status_code'', c)]) = [''request.id'', ''duration_ms'', ''status_code'']"
  by (simp_all add: field_of_def is_completion_def child_def logger_def)

lemma emitted_Flush:
  assumes ok: "emitted_ok w" and wf: "wf_world w"
  shows "emitted_ok (deliver (Flush i) w)"
proof (cases "i < next_res (st w)")
  case True
  from wf_hookD[OF wf True] obtain start where
    h: "listeners (responses (st w) i) =
          [(''finish'', CompletionHook start (child logger [(''request.id'', JStr (rids w i))]) i)]"
    by (auto simp: hook_ok_def)
  let ?r = "\<lparr>level = (if statusCode (responses (st w) i) \<ge> 500 then Error
                                  else if statusCode (responses (st w) i) \<ge> 400 then Warn else Info),
                        line_fields = chindings (child logger [(''request.id'', JStr (rids w i))]) @
                           [(''duration_ms'', JNum (clock (st w) - start)),
                            (''status_code'', JNum (of_int (statusCode (responses (st w) i))))],
                        msg = (if statusCode (responses (st w) i) \<ge> 500 then ''server error''
                               else if statusCode (responses (st w) i) \<ge> 400 then ''client error''
                               else ''request completed'')\<rparr>"
  show ?thesis
    unfolding deliver_Flush[OF h wf_currentD[OF wf]]
    apply (split if_split)
    apply (intro conjI impI)
     apply (rule emitted_step[OF ok, where new = "[(i, ?r)]"])
         apply (auto simp: record_ok_def field_of_def is_completion_def finished_count_def
              new_completions_def ok child_def logger_def)
    done
next
  case False
  then show ?thesis using ok by (simp only: deliver_Flush_unknown[OF False wf_currentD[OF wf]])
qed

lemma emitted_deliver:
  assumes ok: "emitted_ok w" and wf: "wf_world w"
  shows "emitted_ok (deliver e w)"
proof (cases e)
  case Listening
  show ?thesis unfolding Listening
    by (rule emitted_same[OF ok]) (simp_all add: pino_info_def pino_write_def)
next
  case (Tick d)
  show ?thesis unfolding Tick
    by (rule emitted_same[OF ok]) simp_all
qed (simp_all only: emitted_Arrive[OF ok wf] emitted_FetchSettled[OF ok] emitted_JsonSettled[OF ok wf]
      emitted_Resume[OF ok] emitted_Flush[OF ok wf] emitted_Close[OF ok wf])

lemma emitted_init: "emitted_ok (init gen)"
  by (simp add: emitted_ok_def init_def completion_records_def records_of_def finished_count_def)

lemma emitted_run: "emitted_ok (run evs (init gen))"
proof (induction evs rule: rev_induct)
  case Nil
  show ?case by (simp add: run_def emitted_init)
next
  case (snoc e evs)
  then show ?case by (simp only: run_snoc emitted_deliver wf_run)
qed

lemma run_append: "run (evs @ evs') w = run evs' (run evs w)"
  by (simp add: run_def)

lemma wf_run_from: "wf_world w \<Longrightarrow> wf_world (run evs w)"
proof (induction evs rule: rev_induct)
  case Nil
  then show ?case by (simp add: run_def)
next
  case (snoc e evs)
  then show ?case by (simp only: run_snoc wf_deliver)
qed

lemma uuid_next_requestId_of: "uuid_next s \<le> uuid_next (snd (requestId_of req s))"
  by (simp add: requestId_of_def randomUUID_def split: option.splits)

lemma frame_deliver:
  assumes wf: "wf_world w"
  shows "frame_ok w (deliver e w)"
proof (cases e)
  case Listening
  then show ?thesis by (simp add: frame_ok_def pino_info_def pino_write_def)
next
  case (Arrive req rt)
  show ?thesis
  proof (cases rt)
    case (FetchUser product)
    show ?thesis
      unfolding Arrive FetchUser deliver_Arrive_FetchUser
      by (simp add: frame_ok_def new_response_def on_request_FetchUser uuid_next_requestId_of)
  next
    case NotFound
    show ?thesis
      unfolding Arrive NotFound deliver_Arrive_NotFound
      by (simp add: frame_ok_def new_response_def on_request_NotFound uuid_next_requestId_of)
  qed
next
  case (FetchSettled i outcome)
  show ?thesis
  proof (cases "tasks (st w) i")
    case None
    then show ?thesis by (simp add: FetchSettled frame_ok_def)
  next
    case (Some t)
    show ?thesis
    proof (cases "t_awaiting t")
      case (AwaitFetch url)
      show ?thesis unfolding FetchSettled deliver_FetchSettled[OF Some AwaitFetch]
        by (simp add: frame_ok_def)
    qed (simp_all add: FetchSettled Some frame_ok_def)
  qed
next
  case (JsonSettled i outcome)
  show ?thesis
  proof (cases "tasks (st w) i")
    case None
    then show ?thesis by (simp add: JsonSettled frame_ok_def)
  next
    case (Some t)
    show ?thesis
    proof (cases "t_awaiting t")
      case AwaitJson
      show ?thesis unfolding JsonSettled deliver_JsonSettled[OF Some AwaitJson]
        by (cases outcome) (simp_all add: frame_ok_def)
    qed (simp_all add: JsonSettled Some frame_ok_def)
  qed
next
  case (Resume i)
  show ?thesis
  proof (cases "tasks (st w) i")
    case None
    then show ?thesis by (simp add: Resume frame_ok_def)
  next
    case (Some t)
    show ?thesis
    proof (cases "t_awaiting t")
      case (AwaitFetchUser r)
      show ?thesis unfolding Resume deliver_Resume[OF Some AwaitFetchUser]
        by (cases r) (simp_all add: frame_ok_def)
    qed (simp_all add: Resume Some frame_ok_def)
  qed
next
  case (Flush i)
  show ?thesis
  proof (cases "i < next_res (st w)")
    case True
    from wf_hookD[OF wf True] obtain start l where
      h: "listeners (responses (st w) i) = [(''finish'', CompletionHook start l i)]"
      by (auto simp: hook_ok_def)
    show ?thesis unfolding Flush deliver_Flush[OF h wf_currentD[OF wf]]
      by (simp add: frame_ok_def)
  next
    case False
    show ?thesis unfolding Flush deliver_Flush_unknown[OF False wf_currentD[OF wf]]
      by (simp add: frame_ok_def)
  qed
next
  case (Close i)
  show ?thesis
  proof (cases "i < next_res (st w)")
    case True
    from wf_hookD[OF wf True] obtain start l where
      h: "listeners (responses (st w) i) = [(''finish'', CompletionHook start l i)]"
      by (auto simp: hook_ok_def)
    show ?thesis unfolding Close deliver_Close[OF h wf_currentD[OF wf]]
      by (simp add: frame_ok_def)
  next
    case False
    show ?thesis unfolding Close deliver_Close_unknown[OF False wf_currentD[OF wf]]
      by (simp add: frame_ok_def)
  qed
next
  case (Tick d)
  then show ?thesis by (simp add: frame_ok_def)
qed

lemma frame_ok_refl: "frame_ok w w"
  by (simp add: frame_ok_def)

lemma frame_ok_trans: "frame_ok w w' \<Longrightarrow> frame_ok w' w'' \<Longrightarrow> frame_ok w w''"
  unfolding frame_ok_def by (auto simp: order_trans)

lemma frame_run:
  assumes wf: "wf_world w"
  shows "frame_ok w (run evs w)"
proof (induction evs rule: rev_induct)
  case Nil
  show ?case by (simp add: run_def frame_ok_refl)
next
  case (snoc e evs)
  from frame_deliver[OF wf_run_from[OF wf, of evs], of e]
  show ?case using snoc by (simp only: run_snoc) (rule frame_ok_trans)
qed

lemma uuid_gen_run: "uuid_gen (st (run evs (init gen))) = gen"
  using frame_run[OF wf_init, of gen evs] by (simp add: frame_ok_def init_def)

lemma abandoned_deliver:
  assumes wf: "wf_world w" and ab: "abandoned w i"
  shows "abandoned (deliver e w) i"
proof (cases e)
  case Listening
  then show ?thesis using ab by (simp add: abandoned_def pino_info_def pino_write_def)
next
  case (Arrive req rt)
  from ab have ne: "i \<noteq> next_res (st w)" by (simp add: abandoned_def)
  show ?thesis
  proof (cases rt)
    case (FetchUser product)
    show ?thesis
      unfolding Arrive FetchUser deliver_Arrive_FetchUser
      using ab ne by (simp add: abandoned_def new_response_def on_request_FetchUser)
  next
    case NotFound
    show ?thesis
      unfolding Arrive NotFound deliver_Arrive_NotFound
      using ab ne by (simp add: abandoned_def new_response_def on_request_NotFound)
  qed
next
  case (FetchSettled j outcome)
  show ?thesis
  proof (cases "tasks (st w) j")
    case None
    then show ?thesis using ab by (simp add: FetchSettled)
  next
    case (Some t)
    then have ne: "i \<noteq> j" using ab by (auto simp: abandoned_def)
    show ?thesis
    proof (cases "t_awaiting t")
      case (AwaitFetch url)
      show ?thesis unfolding FetchSettled deliver_FetchSettled[OF Some AwaitFetch]
        using ab ne by (simp add: abandoned_def)
    qed (use ab in \<open>simp_all add: FetchSettled Some\<close>)
  qed
next
  case (JsonSettled j outcome)
  show ?thesis
  proof (cases "tasks (st w) j")
    case None
    then show ?thesis using ab by (simp add: JsonSettled)
  next
    case (Some t)
    then have ne: "i \<noteq> j" using ab by (auto simp: abandoned_def)
    show ?thesis
    proof (cases "t_awaiting t")
      case AwaitJson
      show ?thesis unfolding JsonSettled deliver_JsonSettled[OF Some AwaitJson]
        using ab ne by (cases outcome) (simp_all add: abandoned_def)
    qed (use ab in \<open>simp_all add: JsonSettled Some\<close>)
  qed
next
  case (Resume j)
  show ?thesis
  proof (cases "tasks (st w) j")
    case None
    then show ?thesis using ab by (simp add: Resume)
  next
    case (Some t)
    then have ne: "i \<noteq> j" using ab by (auto simp: abandoned_def)
    show ?thesis
    proof (cases "t_awaiting t")
      case (AwaitFetchUser r)
      show ?thesis unfolding Resume deliver_Resume[OF Some AwaitFetchUser]
        using ab ne by (cases r) (simp_all add: abandoned_def)
    qed (use ab in \<open>simp_all add: Resume Some\<close>)
  qed
next
  case (Flush j)
  show ?thesis
  proof (cases "j < next_res (st w)")
    case True
    from wf_hookD[OF wf True] obtain start l where
      h: "listeners (responses (st w) j) = [(''finish'', CompletionHook start l j)]"
      by (auto simp: hook_ok_def)
    show ?thesis unfolding Flush deliver_Flush[OF h wf_currentD[OF wf]]
      using ab by (auto simp: abandoned_def)
  next
    case False
    show ?thesis unfolding Flush deliver_Flush_unknown[OF False wf_currentD[OF wf]]
      by (rule ab)
  qed
next
  case (Close j)
  show ?thesis
  proof (cases "j < next_res (st w)")
    case True
    from wf_hookD[OF wf True] obtain start l where
      h: "listeners (responses (st w) j) = [(''finish'', CompletionHook start l j)]"
      by (auto simp: hook_ok_def)
    show ?thesis unfolding Close deliver_Close[OF h wf_currentD[OF wf]]
      using ab by (auto simp: abandoned_def)
  next
    case False
    show ?thesis unfolding Close deliver_Close_unknown[OF False wf_currentD[OF wf]]
      by (rule ab)
  qed
next
  case (Tick d)
  then show ?thesis using ab by (simp add: abandoned_def)
qed

lemma abandoned_run:
  assumes wf: "wf_world w" and ab: "abandoned w i"
  shows "abandoned (run evs w) i"
proof (induction evs rule: rev_induct)
  case Nil
  show ?case using ab by (simp add: run_def)
next
  case (snoc e evs)
  show ?case
    by (simp only: run_snoc) (rule abandoned_deliver[OF wf_run_from[OF wf] snoc])
qed

lemmas eval_defs = run_def init_def example_gen_def example_req_a_def example_req_b_def
  in_chain_def Let_def new_response_def on_request_FetchUser on_request_NotFound
  requestId_of_def randomUUID_def entry_fields_def on_fetch_settled_def on_json_settled_def
  on_resume_def fetchUser_after_fetch_def fetchUser_after_json_def fetch_user_arrow_resume_def
  res_json_def flush_def close_connection_def emit_def on_finish_def performance_now_def
  pino_info_def pino_warn_def pino_error_def pino_write_def getLogger_def getStore_def Map_get_def
  child_def logger_def records_of_def completion_records_def is_completion_def field_of_def

lemmas example_defs = example_ok_def example_arrivals_def example_interleaved_def
  example_completion_def example_completed_def example_pending_def example_failed_def
  example_closed_early_def

lemma example_interleaved_eval:
  "emitted example_interleaved =
     [(0, \<lparr>level = Info,
           line_fields = [(''request.id'', JStr ''abc-123''), (''http.request.method'', JStr ''GET''),
                          (''url.path'', JStr ''/fetch-user''), (''client.address'', JStr ''::1'')],
           msg = ''incoming GET request to /fetch-user''\<rparr>),
      (0, \<lparr>level = Info,
           line_fields = [(''request.id'', JStr ''abc-123''), (''request.id'', JStr ''abc-123''),
                          (''user.id'', JNum 4)],
           msg = ''fetching user data''\<rparr>),
      (1, \<lparr>level = Info,
           line_fields = [(''request.id'', JStr ''uuid-a''), (''http.request.method'', JStr ''GET''),
                          (''url.path'', JStr ''/fetch-user''), (''user_agent.original'', JStr ''curl'')],
           msg = ''incoming GET request to /fetch-user''\<rparr>),
      (1, \<lparr>level = Info,
           line_fields = [(''request.id'', JStr ''uuid-a''), (''request.id'', JStr ''uuid-a''),
                          (''user.id'', JNum 10)],
           msg = ''fetching user data''\<rparr>),
      (1, \<lparr>level = Info,
           line_fields = [(''request.id'', JStr ''uuid-a''), (''request.id'', JStr ''uuid-a''),
                          (''user.id'', JNum 10)],
           msg = ''profile info for user 10 retrieved successfully''\<rparr>),
      (0, \<lparr>level = Info,
           line_fields = [(''request.id'', JStr ''abc-123''), (''request.id'', JStr ''abc-123''),
                          (''user.id'', JNum 4)],
           msg = ''profile info for user 4 retrieved successfully''\<rparr>)]"
  "rids example_interleaved 0 = ''abc-123''" "rids example_interleaved (Suc 0) = ''uuid-a''"
  "tasks (st example_interleaved) 0 =
     Some \<lparr>t_store = Some 2, t_userID = 4, t_awaiting = AwaitFetchUser (Inr [(''id'', JNum 4)])\<rparr>"
  "tasks (st example_interleaved) (Suc 0) =
     Some \<lparr>t_store = Some 5, t_userID = 10, t_awaiting = AwaitFetchUser (Inr [(''id'', JNum 10)])\<rparr>"
  by (simp_all add: example_defs eval_defs number_string_def)

lemma example_completed_eval:
  "emitted example_completed = emitted example_interleaved @
     [(0, \<lparr>level = Info,
           line_fields = [(''request.id'', JStr ''abc-123''), (''duration_ms'', JNum 5),
                          (''status_code'', JNum 200)],
           msg = ''request completed''\<rparr>)]"
  "next_res (st example_completed) = 2"
  "writableFinished (responses (st example_completed) 0)"
  "\<not> writableFinished (responses (st example_completed) (Suc 0))"
  by (simp_all add: example_defs eval_defs number_string_def)

text \<open>
  C1, as stated, fails. The \<^verbatim>\<open>x-request-id\<close> header is taken as it comes, so two requests
  that are in flight together may have the same id: here both chains are suspended in
  \<^verbatim>\<open>fetchUser\<close>, and the line the handler of request 0 wrote through \<^verbatim>\<open>getLogger()\<close>
  carries the \<^verbatim>\<open>request.id\<close> of request 1.
\<close>

theorem request_id_shared:
  "tasks (st example_same_header) 0 \<noteq> None \<and> tasks (st example_same_header) 1 \<noteq> None \<and>
   (0, \<lparr>level = Info,
         line_fields = [(''request.id'', JStr ''abc-123''), (''request.id'', JStr ''abc-123''),
                        (''user.id'', JNum 4)],
         msg = ''fetching user data''\<rparr>) \<in> set (emitted example_same_header) \<and>
   field_of \<lparr>level = Info,
         line_fields = [(''request.id'', JStr ''abc-123''), (''request.id'', JStr ''abc-123''),
                        (''user.id'', JNum 4)],
         msg = ''fetching user data''\<rparr> ''request.id''
     = Some (JStr (rids example_same_header 1))"
  by (simp add: example_same_header_def eval_defs number_string_def)

text \<open>
  C1, amended. Whatever the order in which the event loop delivers arrivals, settled
  fetches, resumptions, flushes and closes of any number of requests: every line written
  while request \<open>i\<close> runs carries the \<^verbatim>\<open>request.id\<close> of request \<open>i\<close>, and never the id of
  another request when the two ids differ; the logger that \<^verbatim>\<open>getLogger()\<close> returns when
  the suspended chain of request \<open>i\<close> resumes carries the id of request \<open>i\<close>; two suspended
  chains never hold the same store; and no event writes to the store a suspended chain
  holds.
\<close>

theorem request_isolation:
  "let w = run evs (init gen) in
     (\<forall>i r. (i, r) \<in> set (emitted w) \<longrightarrow> field_of r ''request.id'' = Some (JStr (rids w i))) \<and>
     (\<forall>i j r. (i, r) \<in> set (emitted w) \<and> rids w j \<noteq> rids w i \<longrightarrow>
                field_of r ''request.id'' \<noteq> Some (JStr (rids w j))) \<and>
     (\<forall>i t. tasks (st w) i = Some t \<longrightarrow>
        map_of (rev (chindings (getLogger ((st w)\<lparr>current := t_store t\<rparr>)))) ''request.id''
          = Some (JStr (rids w i))) \<and>
     (\<forall>i j t u. tasks (st w) i = Some t \<and> tasks (st w) j = Some u \<and> i \<noteq> j \<longrightarrow> t_store t \<noteq> t_store u) \<and>
     (\<forall>e i t a. tasks (st w) i = Some t \<and> t_store t = Some a \<longrightarrow>
        heap (st (deliver e w)) a = heap (st w) a)"
proof -
  define w where "w = run evs (init gen)"
  have wf: "wf_world w" unfolding w_def by (rule wf_run)
  have em: "emitted_ok w" unfolding w_def by (rule emitted_run)
  have 1: "field_of r ''request.id'' = Some (JStr (rids w i))" if "(i, r) \<in> set (emitted w)" for i r
    using em that by (simp add: emitted_ok_def record_ok_def)
  have 2: "field_of r ''request.id'' \<noteq> Some (JStr (rids w j))"
    if "(i, r) \<in> set (emitted w)" "rids w j \<noteq> rids w i" for i j r
    using 1[OF that(1)] that(2) by simp
  have 3: "map_of (rev (chindings (getLogger ((st w)\<lparr>current := t_store t\<rparr>)))) ''request.id''
          = Some (JStr (rids w i))" if "tasks (st w) i = Some t" for i t
    using wf_taskD[OF wf that] by (simp add: task_ok_def scoped_def resumed_def)
  have 4: "t_store t \<noteq> t_store u" if "tasks (st w) i = Some t" "tasks (st w) j = Some u" "i \<noteq> j" for i j t u
    using wf_distinctD[OF wf that(1,2)] that(3) by blast
  have 5: "heap (st (deliver e w)) a = heap (st w) a" if "tasks (st w) i = Some t" "t_store t = Some a" for e i t a
  proof -
    from wf_taskD[OF wf that(1)] that(2) have "a < next_addr (st w)" by (simp add: task_ok_def)
    with frame_deliver[OF wf, of e] show ?thesis by (simp add: frame_ok_def)
  qed
  from 1 2 3 4 5 show ?thesis unfolding Let_def w_def[symmetric] by blast
qed

theorem request_isolation_witness:
  "(0, \<lparr>level = Info,
         line_fields = [(''request.id'', JStr ''abc-123''), (''request.id'', JStr ''abc-123''),
                        (''user.id'', JNum 4)],
         msg = ''profile info for user 4 retrieved successfully''\<rparr>) \<in> set (emitted example_interleaved) \<and>
   rids example_interleaved 0 = ''abc-123'' \<and> rids example_interleaved 1 = ''uuid-a'' \<and>
   field_of \<lparr>level = Info,
         line_fields = [(''request.id'', JStr ''abc-123''), (''request.id'', JStr ''abc-123''),
                        (''user.id'', JNum 4)],
         msg = ''profile info for user 4 retrieved successfully''\<rparr> ''request.id''
     = Some (JStr (rids example_interleaved 0)) \<and>
   tasks (st example_interleaved) 0 \<noteq> None \<and> tasks (st example_interleaved) 1 \<noteq> None \<and>
   t_store (the (tasks (st example_interleaved) 0)) \<noteq> t_store (the (tasks (st example_interleaved) 1))"
proof -
  let ?r = "\<lparr>level = Info,
         line_fields = [(''request.id'', JStr ''abc-123''), (''request.id'', JStr ''abc-123''),
                        (''user.id'', JNum 4)],
         msg = ''profile info for user 4 retrieved successfully''\<rparr>"
  have mem: "(0, ?r) \<in> set (emitted example_interleaved)"
    by (simp add: example_interleaved_eval)
  have "\<forall>i r. (i, r) \<in> set (emitted example_interleaved) \<longrightarrow>
          field_of r ''request.id'' = Some (JStr (rids example_interleaved i))"
    using request_isolation[of example_arrivals example_gen]
    unfolding Let_def example_interleaved_def by blast
  with mem have "field_of ?r ''request.id'' = Some (JStr (rids example_interleaved 0))" by blast
  with mem show ?thesis by (simp add: example_interleaved_eval)
qed

text \<open>
  C2, as stated, fails. A request to \<^verbatim>\<open>/fetch-user\<close> whose \<^verbatim>\<open>fetch\<close> is rejected never gets
  a response, so its response never finishes and no completion record is written; and
  when the connection closes before the handler answers, the response is ended on a
  closed connection, \<^verbatim>\<open>finish\<close> is not emitted and no completion record is written.
\<close>

theorem completion_record_missing:
  "next_res (st example_failed) = 1 \<and> completion_records 0 example_failed = [] \<and>
   next_res (st example_closed_early) = 1 \<and> completion_records 0 example_closed_early = []"
  by (simp add: example_defs eval_defs number_string_def)

text \<open>
  C2, amended. The completion hook listens to \<^verbatim>\<open>finish\<close> only. In every run of the event
  loop the number of completion records of request \<open>i\<close> is one if its response has
  finished and zero otherwise: never more than one, exactly one once the response was
  ended and handed over on an open connection, none while or when that does not happen.
\<close>

theorem completion_record_once_finished:
  "length (completion_records i (run evs (init gen))) =
     (if i < next_res (st (run evs (init gen))) \<and>
         writableFinished (responses (st (run evs (init gen))) i) then 1 else 0)"
  using emitted_run[of evs gen] by (simp add: emitted_ok_def finished_count_def)

theorem completion_record_once_finished_witness:
  "length (completion_records 0 example_completed) = 1 \<and>
   writableFinished (responses (st example_completed) 0) \<and>
   length (completion_records 1 example_completed) = 0 \<and>
   \<not> writableFinished (responses (st example_completed) 1)"
  using completion_record_once_finished[of 0 example_completion example_gen]
        completion_record_once_finished[of 1 example_completion example_gen]
  by (simp add: example_completed_def[symmetric] example_completed_eval)

text \<open>
  C9. In every run, every completion record written for request \<open>i\<close> has exactly the
  keys \<^verbatim>\<open>request.id\<close>, \<^verbatim>\<open>duration_ms\<close> and \<^verbatim>\<open>status_code\<close>, with the id of request \<open>i\<close>,
  and so no \<^verbatim>\<open>user.id\<close>: the only listener of a response is the hook that closes over the
  logger \<^verbatim>\<open>logger.child({ "request.id": requestId })\<close>, and the hook writes through that
  logger.
\<close>

theorem completion_record_fields:
  "let w = run evs (init gen) in
     (\<forall>i r. (i, r) \<in> set (emitted w) \<and> is_completion r \<longrightarrow>
        map fst (line_fields r) = [''request.id'', ''duration_ms'', ''status_code''] \<and>
        field_of r ''request.id'' = Some (JStr (rids w i)) \<and>
        field_of r ''user.id'' = None) \<and>
     (\<forall>i<next_res (st w). \<exists>start.
        listeners (responses (st w) i) =
          [(''finish'', CompletionHook start (child logger [(''request.id'', JStr (rids w i))]) i)]) \<and>
     (\<forall>start l res s. \<exists>lv d m.
        call_listener (CompletionHook start l res) s =
          s\<lparr>out := out s @ [\<lparr>level = lv, line_fields = chindings l @
                 [(''duration_ms'', d), (''status_code'', JNum (of_int (statusCode (responses s res))))],
                 msg = m\<rparr>]\<rparr>)"
proof -
  define w where "w = run evs (init gen)"
  have wf: "wf_world w" unfolding w_def by (rule wf_run)
  have em: "emitted_ok w" unfolding w_def by (rule emitted_run)
  have 1: "map fst (line_fields r) = [''request.id'', ''duration_ms'', ''status_code''] \<and>
        field_of r ''request.id'' = Some (JStr (rids w i)) \<and> field_of r ''user.id'' = None"
    if "(i, r) \<in> set (emitted w)" "is_completion r" for i r
  proof -
    from em that have k: "map fst (line_fields r) = [''request.id'', ''duration_ms'', ''status_code'']"
      and f: "field_of r ''request.id'' = Some (JStr (rids w i))"
      by (simp_all add: emitted_ok_def record_ok_def)
    from arg_cong[OF k, of set]
    have "set (map fst (rev (line_fields r))) = {''request.id'', ''duration_ms'', ''status_code''}"
      by simp
    then have "''user.id'' \<notin> set (map fst (rev (line_fields r)))" by simp
    then have "field_of r ''user.id'' = None"
      unfolding field_of_def by (rule map_of_absent)
    with k f show ?thesis by simp
  qed
  have 2: "\<exists>start. listeners (responses (st w) i) =
          [(''finish'', CompletionHook start (child logger [(''request.id'', JStr (rids w i))]) i)]"
    if "i < next_res (st w)" for i
    using wf_hookD[OF wf that] by (simp add: hook_ok_def)
  have 3: "\<exists>lv d m. call_listener (CompletionHook start l res) s =
          s\<lparr>out := out s @ [\<lparr>level = lv, line_fields = chindings l @
                 [(''duration_ms'', d), (''status_code'', JNum (of_int (statusCode (responses s res))))],
                 msg = m\<rparr>]\<rparr>" for start l res s
    by (auto simp: on_finish_def performance_now_def pino_error_def pino_warn_def pino_info_def
        pino_write_def Let_def)
  from 1 2 3 show ?thesis unfolding Let_def w_def[symmetric] by blast
qed

theorem completion_record_fields_witness:
  "(0, \<lparr>level = Info,
         line_fields = [(''request.id'', JStr ''abc-123''), (''duration_ms'', JNum 5),
                        (''status_code'', JNum 200)],
         msg = ''request completed''\<rparr>) \<in> set (emitted example_completed) \<and>
   is_completion \<lparr>level = Info,
         line_fields = [(''request.id'', JStr ''abc-123''), (''duration_ms'', JNum 5),
                        (''status_code'', JNum 200)],
         msg = ''request completed''\<rparr> \<and>
   field_of \<lparr>level = Info,
         line_fields = [(''request.id'', JStr ''abc-123''), (''duration_ms'', JNum 5),
                        (''status_code'', JNum 200)],
         msg = ''request completed''\<rparr> ''user.id'' = None \<and>
   (0, \<lparr>level = Info,
         line_fields = [(''request.id'', JStr ''abc-123''), (''request.id'', JStr ''abc-123''),
                        (''user.id'', JNum 4)],
         msg = ''fetching user data''\<rparr>) \<in> set (emitted example_completed)"
proof -
  let ?r = "\<lparr>level = Info,
         line_fields = [(''request.id'', JStr ''abc-123''), (''duration_ms'', JNum 5),
                        (''status_code'', JNum 200)],
         msg = ''request completed''\<rparr>"
  have ev: "(0, ?r) \<in> set (emitted example_completed)" "is_completion ?r"
    by (simp_all add: example_completed_eval is_completion_def)
  have "\<forall>i r. (i, r) \<in> set (emitted example_completed) \<and> is_completion r \<longrightarrow>
          field_of r ''user.id'' = None"
    using completion_record_fields[of example_completion example_gen]
    unfolding Let_def example_completed_def by blast
  with ev have "field_of ?r ''user.id'' = None" by blast
  with ev show ?thesis by (simp add: example_completed_eval example_interleaved_eval)
qed

lemma inj_example_gen: "inj example_gen"
proof (rule injI)
  fix m n assume "example_gen m = example_gen n"
  then have "length (example_gen m) = length (example_gen n)" by simp
  then show "m = n" by (simp add: example_gen_def)
qed

lemma rejected_resume:
  assumes wf: "wf_world w" and T: "tasks (st w) i = Some t" and A: "t_awaiting t = AwaitFetchUser (Inl e)"
  shows "unhandled (st (deliver (Resume i) w)) = unhandled (st w) @ [e]"
    and "abandoned (deliver (Resume i) w) i"
proof -
  from wf_taskD[OF wf T] have "i < next_res (st w)" "\<not> writableEnded (responses (st w) i)"
    "body (responses (st w) i) = None" by (simp_all add: task_ok_def)
  then show "unhandled (st (deliver (Resume i) w)) = unhandled (st w) @ [e]"
    and "abandoned (deliver (Resume i) w) i"
    unfolding deliver_Resume[OF T A] by (simp_all add: abandoned_def)
qed

lemma rejected_never_answered:
  assumes wf: "wf_world w" and T: "tasks (st w) i = Some t" and A: "t_awaiting t = AwaitFetchUser (Inl e)"
  shows "body (responses (st (run evs (deliver (Resume i) w))) i) = None \<and>
         \<not> writableEnded (responses (st (run evs (deliver (Resume i) w))) i)"
  using abandoned_run[OF wf_deliver[OF wf] rejected_resume(2)[OF wf T A], of evs]
  by (simp add: abandoned_def)

text \<open>
  C10. The \<^verbatim>\<open>/fetch-user\<close> handler drops the promise that \<^verbatim>\<open>withLogContext\<close> returns. In every
  run, for every request whose chain is suspended in \<^verbatim>\<open>fetchUser\<close>: when the \<^verbatim>\<open>fetch\<close> is
  rejected or answers with a status that is not ok, or when reading the JSON body is
  rejected, the error ends up among the unhandled rejections once the chain resumes, and
  no JSON response is sent for that request then or at any later time.
\<close>

theorem fetch_user_rejection_unhandled:
  "let w = run evs (init gen) in
     (\<forall>i t. tasks (st w) i = Some t \<longrightarrow>
        (\<forall>url outcome e. t_awaiting t = AwaitFetch url \<and> fetchUser_after_fetch outcome = Inl e \<longrightarrow>
           unhandled (st (run [FetchSettled i outcome, Resume i] w)) = unhandled (st w) @ [e] \<and>
           (\<forall>evs'. body (responses (st (run evs' (run [FetchSettled i outcome, Resume i] w))) i) = None \<and>
                   \<not> writableEnded (responses (st (run evs' (run [FetchSettled i outcome, Resume i] w))) i))) \<and>
        (\<forall>e. t_awaiting t = AwaitJson \<longrightarrow>
           unhandled (st (run [JsonSettled i (Inl e), Resume i] w)) = unhandled (st w) @ [e] \<and>
           (\<forall>evs'. body (responses (st (run evs' (run [JsonSettled i (Inl e), Resume i] w))) i) = None \<and>
                   \<not> writableEnded (responses (st (run evs' (run [JsonSettled i (Inl e), Resume i] w))) i)))) \<and>
     (\<forall>e. fetchUser_after_fetch (Inl e) = Inl e) \<and>
     (\<forall>response. \<not> ok response \<longrightarrow>
        fetchUser_after_fetch (Inr response) =
          Inl (JsError ''Error'' (''Failed to fetch user: '' @ number_string (status response) @ '' ''
                 @ statusText response)))"
proof -
  define w where "w = run evs (init gen)"
  have wf: "wf_world w" unfolding w_def by (rule wf_run)
  have run2: "run [a, b] v = deliver b (deliver a v)" for a b v by (simp add: run_def)
  have 1: "unhandled (st (run [FetchSettled i outcome, Resume i] w)) = unhandled (st w) @ [e] \<and>
           (\<forall>evs'. body (responses (st (run evs' (run [FetchSettled i outcome, Resume i] w))) i) = None \<and>
                   \<not> writableEnded (responses (st (run evs' (run [FetchSettled i outcome, Resume i] w))) i))"
    if T: "tasks (st w) i = Some t" and A: "t_awaiting t = AwaitFetch url"
      and F: "fetchUser_after_fetch outcome = Inl e" for i t url outcome e
  proof -
    define w1 where "w1 = deliver (FetchSettled i outcome) w"
    have wf1: "wf_world w1" unfolding w1_def by (rule wf_deliver[OF wf])
    have T1: "tasks (st w1) i = Some (t\<lparr>t_awaiting := AwaitFetchUser (Inl e)\<rparr>)"
      and u1: "unhandled (st w1) = unhandled (st w)"
      unfolding w1_def deliver_FetchSettled[OF T A] by (simp_all add: F)
    have A1: "t_awaiting (t\<lparr>t_awaiting := AwaitFetchUser (Inl e)\<rparr>) = AwaitFetchUser (Inl e)" by simp
    from rejected_resume(1)[OF wf1 T1 A1] rejected_never_answered[OF wf1 T1 A1] u1
    show ?thesis unfolding run2 w1_def[symmetric] by simp
  qed
  have 2: "unhandled (st (run [JsonSettled i (Inl e), Resume i] w)) = unhandled (st w) @ [e] \<and>
           (\<forall>evs'. body (responses (st (run evs' (run [JsonSettled i (Inl e), Resume i] w))) i) = None \<and>
                   \<not> writableEnded (responses (st (run evs' (run [JsonSettled i (Inl e), Resume i] w))) i))"
    if T: "tasks (st w) i = Some t" and A: "t_awaiting t = AwaitJson" for i t e
  proof -
    define w1 where "w1 = deliver (JsonSettled i (Inl e)) w"
    have wf1: "wf_world w1" unfolding w1_def by (rule wf_deliver[OF wf])
    have T1: "tasks (st w1) i = Some (t\<lparr>t_awaiting := AwaitFetchUser (Inl e)\<rparr>)"
      and u1: "unhandled (st w1) = unhandled (st w)"
      unfolding w1_def deliver_JsonSettled[OF T A] by simp_all
    have A1: "t_awaiting (t\<lparr>t_awaiting := AwaitFetchUser (Inl e)\<rparr>) = AwaitFetchUser (Inl e)" by simp
    from rejected_resume(1)[OF wf1 T1 A1] rejected_never_answered[OF wf1 T1 A1] u1
    show ?thesis unfolding run2 w1_def[symmetric] by simp
  qed
  have 3: "fetchUser_after_fetch (Inl e) = Inl e" for e
    by (simp add: fetchUser_after_fetch_def)
  have 4: "fetchUser_after_fetch (Inr response) =
          Inl (JsError ''Error'' (''Failed to fetch user: '' @ number_string (status response) @ '' ''
                 @ statusText response))" if "\<not> ok response" for response
    using that by (simp add: fetchUser_after_fetch_def)
  from 1 2 3 4 show ?thesis unfolding Let_def w_def[symmetric] by blast
qed

lemma example_pending_eval:
  "tasks (st example_pending) 0 =
     Some \<lparr>t_store = Some 2, t_userID = 4,
           t_awaiting = AwaitFetch ''https://jsonplaceholder.typicode.com/users/4''\<rparr>"
  "unhandled (st example_pending) = []"
  by (simp_all add: example_defs eval_defs fetchUser_url_def number_string_def)

theorem fetch_user_rejection_unhandled_witness:
  "tasks (st example_pending) 0 =
     Some \<lparr>t_store = Some 2, t_userID = 4,
           t_awaiting = AwaitFetch ''https://jsonplaceholder.typicode.com/users/4''\<rparr> \<and>
   fetchUser_after_fetch (Inl (JsError ''TypeError'' ''fetch failed'')) = Inl (JsError ''TypeError'' ''fetch failed'') \<and>
   unhandled (st (run [FetchSettled 0 (Inl (JsError ''TypeError'' ''fetch failed'')), Resume 0] example_pending))
     = [JsError ''TypeError'' ''fetch failed''] \<and>
   body (responses (st example_failed) 0) = None \<and>
   \<not> writableEnded (responses (st example_failed) 0)"
proof -
  let ?e = "JsError ''TypeError'' ''fetch failed''"
  let ?t = "\<lparr>t_store = Some 2, t_userID = 4,
           t_awaiting = AwaitFetch ''https://jsonplaceholder.typicode.com/users/4''\<rparr>"
  note inst = fetch_user_rejection_unhandled[of "[Arrive example_req_a (FetchUser 3.5)]" example_gen,
      unfolded Let_def, folded example_pending_def]
  have F: "fetchUser_after_fetch (Inl ?e) = Inl ?e" by (simp add: fetchUser_after_fetch_def)
  have A: "t_awaiting ?t = AwaitFetch ''https://jsonplaceholder.typicode.com/users/4''" by simp
  from inst example_pending_eval(1) A F
  have "unhandled (st (run [FetchSettled 0 (Inl ?e), Resume 0] example_pending))
          = unhandled (st example_pending) @ [?e] \<and>
        (\<forall>evs'. body (responses (st (run evs' (run [FetchSettled 0 (Inl ?e), Resume 0] example_pending))) 0) = None \<and>
                \<not> writableEnded (responses (st (run evs' (run [FetchSettled 0 (Inl ?e), Resume 0] example_pending))) 0))"
    by blast
  then show ?thesis
    by (simp add: example_failed_def example_pending_eval F)
qed

lemma arrive_rid:
  "rids (deliver (Arrive req rt) w) (next_res (st w)) = fst (requestId_of req (st w))"
  by (cases rt) (simp_all only: deliver_Arrive_FetchUser deliver_Arrive_NotFound, simp_all)

lemma arrive_uuid_next:
  "uuid_next (st (deliver (Arrive req rt) w)) = uuid_next (snd (requestId_of req (st w)))"
  by (cases rt)
     (simp_all only: deliver_Arrive_FetchUser deliver_Arrive_NotFound,
      simp_all add: new_response_def on_request_FetchUser on_request_NotFound)

lemma arrive_records:
  assumes em: "emitted_ok w"
  shows "\<exists>rest. records_of (next_res (st w)) (deliver (Arrive req rt) w) =
           \<lparr>level = Info,
            line_fields = (''request.id'', JStr (fst (requestId_of req (st w)))) # entry_fields req,
            msg = ''incoming '' @ req_method req @ '' request to '' @ req_url req\<rparr> # rest"
proof -
  have "(i, r) \<in> set (emitted w) \<Longrightarrow> i \<noteq> next_res (st w)" for i r
    using em by (auto simp: emitted_ok_def record_ok_def)
  then have "filter (\<lambda>(j, r). j = next_res (st w)) (emitted w) = []"
    by (auto simp: filter_empty_conv)
  then show ?thesis
    by (cases rt)
       (simp_all only: deliver_Arrive_FetchUser deliver_Arrive_NotFound, simp_all add: records_of_def)
qed

lemma requestId_of_header:
  "map_of (req_headers req) ''x-request-id'' = Some h \<Longrightarrow> h \<noteq> [] \<Longrightarrow> requestId_of req s = (h, s)"
  by (simp add: requestId_of_def)

lemma requestId_of_fresh:
  "map_of (req_headers req) ''x-request-id'' = None \<or> map_of (req_headers req) ''x-request-id'' = Some [] \<Longrightarrow>
   requestId_of req s = (uuid_gen s (uuid_next s), s\<lparr>uuid_next := Suc (uuid_next s)\<rparr>)"
  by (auto simp: requestId_of_def randomUUID_def)

text \<open>
  C6. When a request arrives, in any state the server can reach, the first line written
  for it is the entry record, and the \<^verbatim>\<open>request.id\<close> it carries is the value of the
  \<^verbatim>\<open>x-request-id\<close> header when that header is present and not empty. Otherwise it is the
  next value of \<^verbatim>\<open>randomUUID()\<close>, drawn for this request alone: it is not empty when the
  generator returns no empty string, and it differs from the identifier generated for
  any request that arrives later when the generator never repeats a value.
\<close>

theorem request_id_header_or_fresh:
  "let w = run evs (init gen); i = next_res (st w); w1 = deliver (Arrive req rt) w in
     (\<exists>rest. records_of i w1 =
         \<lparr>level = Info, line_fields = (''request.id'', JStr (rids w1 i)) # entry_fields req,
          msg = ''incoming '' @ req_method req @ '' request to '' @ req_url req\<rparr> # rest) \<and>
     field_of \<lparr>level = Info, line_fields = (''request.id'', JStr (rids w1 i)) # entry_fields req,
          msg = ''incoming '' @ req_method req @ '' request to '' @ req_url req\<rparr> ''request.id''
       = Some (JStr (rids w1 i)) \<and>
     (\<forall>h. map_of (req_headers req) ''x-request-id'' = Some h \<and> h \<noteq> [] \<longrightarrow> rids w1 i = h) \<and>
     (map_of (req_headers req) ''x-request-id'' = None \<or>
      map_of (req_headers req) ''x-request-id'' = Some [] \<longrightarrow>
        rids w1 i = gen (uuid_next (st w)) \<and>
        ((\<forall>n. gen n \<noteq> []) \<longrightarrow> rids w1 i \<noteq> []) \<and>
        (inj gen \<longrightarrow>
           (\<forall>evs' req' rt'.
              map_of (req_headers req') ''x-request-id'' = None \<or>
              map_of (req_headers req') ''x-request-id'' = Some [] \<longrightarrow>
                rids (deliver (Arrive req' rt') (run evs' w1)) (next_res (st (run evs' w1))) \<noteq> rids w1 i)))"
proof -
  define w where "w = run evs (init gen)"
  define w1 where "w1 = deliver (Arrive req rt) w"
  have wf: "wf_world w" unfolding w_def by (rule wf_run)
  have em: "emitted_ok w" unfolding w_def by (rule emitted_run)
  have gen: "uuid_gen (st w) = gen" unfolding w_def by (rule uuid_gen_run)
  have wf1: "wf_world w1" unfolding w1_def by (rule wf_deliver[OF wf])
  have gen1: "uuid_gen (st w1) = gen"
    using frame_deliver[OF wf, of "Arrive req rt"] gen by (simp add: frame_ok_def w1_def)
  have rid: "rids w1 (next_res (st w)) = fst (requestId_of req (st w))"
    unfolding w1_def by (rule arrive_rid)
  have 1: "\<exists>rest. records_of (next_res (st w)) w1 =
         \<lparr>level = Info, line_fields = (''request.id'', JStr (rids w1 (next_res (st w)))) # entry_fields req,
          msg = ''incoming '' @ req_method req @ '' request to '' @ req_url req\<rparr> # rest"
    unfolding rid unfolding w1_def by (rule arrive_records[OF em])
  have 2: "field_of \<lparr>level = Info,
          line_fields = (''request.id'', JStr (rids w1 (next_res (st w)))) # entry_fields req,
          msg = ''incoming '' @ req_method req @ '' request to '' @ req_url req\<rparr> ''request.id''
       = Some (JStr (rids w1 (next_res (st w))))"
    by (rule entry_record_ok)
  have 3: "rids w1 (next_res (st w)) = h" if "map_of (req_headers req) ''x-request-id'' = Some h" "h \<noteq> []" for h
    unfolding rid by (simp add: requestId_of_header[OF that])
  have 4: "rids w1 (next_res (st w)) = gen (uuid_next (st w))"
    if "map_of (req_headers req) ''x-request-id'' = None \<or> map_of (req_headers req) ''x-request-id'' = Some []"
    unfolding rid by (simp add: requestId_of_fresh[OF that] gen)
  have n1: "uuid_next (st w1) = Suc (uuid_next (st w))"
    if "map_of (req_headers req) ''x-request-id'' = None \<or> map_of (req_headers req) ''x-request-id'' = Some []"
    unfolding w1_def arrive_uuid_next by (simp add: requestId_of_fresh[OF that])
  have 5: "rids (deliver (Arrive req' rt') (run evs' w1)) (next_res (st (run evs' w1))) \<noteq> rids w1 (next_res (st w))"
    if a: "map_of (req_headers req) ''x-request-id'' = None \<or> map_of (req_headers req) ''x-request-id'' = Some []"
      and b: "map_of (req_headers req') ''x-request-id'' = None \<or> map_of (req_headers req') ''x-request-id'' = Some []"
      and inj: "inj gen" for evs' req' rt'
  proof -
    from frame_run[OF wf1, of evs'] have g2: "uuid_gen (st (run evs' w1)) = gen"
      and n2: "uuid_next (st w1) \<le> uuid_next (st (run evs' w1))"
      by (simp_all add: frame_ok_def gen1)
    have "rids (deliver (Arrive req' rt') (run evs' w1)) (next_res (st (run evs' w1)))
            = gen (uuid_next (st (run evs' w1)))"
      unfolding arrive_rid by (simp add: requestId_of_fresh[OF b] g2)
    moreover have "uuid_next (st (run evs' w1)) \<noteq> uuid_next (st w)"
      using n1[OF a] n2 by simp
    ultimately show ?thesis using 4[OF a] inj by (simp add: inj_eq)
  qed
  show ?thesis
    unfolding Let_def w_def[symmetric] w1_def[symmetric]
    apply (intro conjI allI impI)
    subgoal by (rule 1)
    subgoal by (rule 2)
    subgoal for h using 3[of h] by blast
    subgoal by (rule 4)
    subgoal using 4 by simp
    subgoal for evs' req' rt' by (rule 5)
    done
qed

lemma example_third_eval:
  "next_res (st example_interleaved) = 2"
  "rids example_third 2 = ''uuid-aa''"
  "map_of (req_headers example_req_b) ''x-request-id'' = None"
  "map_of (req_headers example_req_a) ''x-request-id'' = Some ''abc-123''"
  by (simp_all add: example_third_def example_defs eval_defs number_string_def)

theorem request_id_header_or_fresh_witness:
  "map_of (req_headers example_req_a) ''x-request-id'' = Some ''abc-123'' \<and>
   rids (deliver (Arrive example_req_a (FetchUser 3.5)) (run [] (init example_gen))) 0 = ''abc-123'' \<and>
   map_of (req_headers example_req_b) ''x-request-id'' = None \<and>
   rids example_third 2 = example_gen 1 \<and> rids example_third 2 \<noteq> [] \<and> inj example_gen \<and>
   rids (deliver (Arrive example_req_b (FetchUser 9.5)) (run [Tick 1] example_third))
        (next_res (st (run [Tick 1] example_third))) \<noteq> rids example_third 2"
proof -
  note a = request_id_header_or_fresh[of "[]" example_gen example_req_a "FetchUser 3.5", unfolded Let_def]
  note a3 = a[THEN conjunct2, THEN conjunct2, THEN conjunct1, rule_format]
  have A: "rids (deliver (Arrive example_req_a (FetchUser 3.5)) (run [] (init example_gen)))
             (next_res (st (run [] (init example_gen)))) = ''abc-123''"
    by (rule a3) (simp add: example_third_eval)
  have n0: "next_res (st (run [] (init example_gen))) = 0" by (simp add: run_def init_def)
  note b = request_id_header_or_fresh[of example_arrivals example_gen example_req_b NotFound,
      unfolded Let_def, folded example_interleaved_def, folded example_third_def,
      unfolded example_third_eval(1)]
  note b4 = b[THEN conjunct2, THEN conjunct2, THEN conjunct2, THEN mp, OF disjI1[OF example_third_eval(3)]]
  have ne: "\<forall>n. example_gen n \<noteq> []" by (simp add: example_gen_def)
  have B: "rids example_third 2 \<noteq> []"
    by (rule b4[THEN conjunct2, THEN conjunct1, THEN mp, OF ne])
  have C: "rids (deliver (Arrive example_req_b (FetchUser 9.5)) (run [Tick 1] example_third))
        (next_res (st (run [Tick 1] example_third))) \<noteq> rids example_third 2"
    by (rule b4[THEN conjunct2, THEN conjunct2, THEN mp, OF inj_example_gen, rule_format])
       (rule disjI1[OF example_third_eval(3)])
  have D: "rids example_third 2 = example_gen 1"
    by (simp add: example_third_eval example_gen_def)
  from A[unfolded n0] B C D inj_example_gen example_third_eval(3,4) show ?thesis
    by (intro conjI)
qed

lemma getLogger_bound:
  "getLogger (s\<lparr>next_addr := x, heap := (heap s)(n := AList.update ''logger'' c es), current := Some n\<rparr>) = c"
  by (simp add: getLogger_def getStore_def Map_get_def update_conv')

lemma field_of_append:
  "field_of \<lparr>level = lv, line_fields = xs @ ys, msg = m\<rparr> k = (map_of (rev xs) ++ map_of (rev ys)) k"
  by (simp add: field_of_def)

text \<open>
  C3. For nested bindings \<^verbatim>\<open>withLogContext(f1, () => withLogContext(f2, work))\<close> there is
  one state in which every \<^verbatim>\<open>work\<close> starts. There \<^verbatim>\<open>getLogger()\<close> returns the logger of
  the enclosing scope extended by \<^verbatim>\<open>f1\<close> and then by \<^verbatim>\<open>f2\<close> (the innermost frame), and in
  every line written through it a key reads as the enclosing scope's value overridden
  by \<^verbatim>\<open>f1\<close>'s, overridden by \<^verbatim>\<open>f2\<close>'s (and by the merging object of the call).
\<close>

theorem withLogContext_nested:
  "\<exists>s_in.
     (\<forall>work :: state \<Rightarrow> (js_error + 'a) \<times> state.
        withLogContext f1 (withLogContext f2 work) s =
        (case work s_in of (r, s') \<Rightarrow> (r, s'\<lparr>current := current s\<rparr>))) \<and>
     getLogger s_in = child (child (getLogger s) f1) f2 \<and>
     out s_in = out s \<and>
     (\<forall>lv obj m k.
        field_of (last (out (pino_write lv (getLogger s_in) obj m s_in))) k =
          (map_of (rev (chindings (getLogger s))) ++ map_of (rev f1) ++ map_of (rev f2)
             ++ map_of (rev obj)) k)"
proof -
  define s1 where "s1 = s\<lparr>next_addr := Suc (next_addr s),
       heap := (heap s)(next_addr s := AList.update ''logger'' (child (getLogger s) f1)
                  (case current s of None \<Rightarrow> [] | Some a \<Rightarrow> heap s a)),
       current := Some (next_addr s)\<rparr>"
  define s2 where "s2 = s1\<lparr>next_addr := Suc (next_addr s1),
       heap := (heap s1)(next_addr s1 := AList.update ''logger'' (child (getLogger s1) f2)
                  (case current s1 of None \<Rightarrow> [] | Some a \<Rightarrow> heap s1 a)),
       current := Some (next_addr s1)\<rparr>"
  have l1: "getLogger s1 = child (getLogger s) f1"
    unfolding s1_def by (rule getLogger_bound)
  have l2: "getLogger s2 = child (child (getLogger s) f1) f2"
    unfolding s2_def l1[symmetric] by (rule getLogger_bound)
  have c1: "current s1 = Some (next_addr s)" by (simp add: s1_def)
  have run: "withLogContext f1 (withLogContext f2 work) s =
        (case work s2 of (r, s') \<Rightarrow> (r, s'\<lparr>current := current s\<rparr>))" for work :: "state \<Rightarrow> (js_error + 'a) \<times> state"
    unfolding withLogContext_unfold[of f1 _ s] s1_def[symmetric]
    unfolding withLogContext_unfold[of f2 _ s1] s2_def[symmetric]
    by (simp split: prod.splits)
  have o: "out s2 = out s" by (simp add: s2_def s1_def)
  have f: "field_of (last (out (pino_write lv (getLogger s2) obj m s2))) k =
          (map_of (rev (chindings (getLogger s))) ++ map_of (rev f1) ++ map_of (rev f2)
             ++ map_of (rev obj)) k" for lv obj m k
    by (simp add: pino_write_def l2 child_def field_of_def)
  show ?thesis
    apply (rule exI[of _ s2])
    apply (intro conjI allI)
    subgoal by (rule run)
    subgoal by (rule l2)
    subgoal by (rule o)
    subgoal by (rule f)
    done
qed

theorem withLogContext_nested_witness:
  "field_of (last (out (snd (withLogContext [(''user.id'', JNum 7), (''step'', JStr ''outer'')]
       (withLogContext [(''step'', JStr ''inner'')]
          (\<lambda>t. (Inr (), pino_info (getLogger t) [] ''working'' t))) example_scoped)))) ''step''
     = Some (JStr ''inner'') \<and>
   map (field_of (last (out (snd (withLogContext [(''user.id'', JNum 7), (''step'', JStr ''outer'')]
       (withLogContext [(''step'', JStr ''inner'')]
          (\<lambda>t. (Inr (), pino_info (getLogger t) [] ''working'' t))) example_scoped)))))
     [''request.id'', ''user.id'', ''other'']
     = [Some (JStr ''abc-123''), Some (JNum 7), None]"
proof -
  let ?work = "\<lambda>t. (Inr () :: js_error + unit, pino_info (getLogger t) [] ''working'' t)"
  let ?f1 = "[(''user.id'', JNum 7), (''step'', JStr ''outer'')]"
  let ?f2 = "[(''step'', JStr ''inner'')]"
  from withLogContext_nested[of ?f1 ?f2 example_scoped]
  obtain s_in where
    run0: "\<forall>work :: state \<Rightarrow> (js_error + unit) \<times> state.
        withLogContext ?f1 (withLogContext ?f2 work) example_scoped =
        (case work s_in of (r, s') \<Rightarrow> (r, s'\<lparr>current := current example_scoped\<rparr>))"
    and f0: "\<forall>lv obj m k. field_of (last (out (pino_write lv (getLogger s_in) obj m s_in))) k =
          (map_of (rev (chindings (getLogger example_scoped))) ++ map_of (rev ?f1) ++ map_of (rev ?f2)
             ++ map_of (rev obj)) k"
    by (elim exE conjE)
  note run = run0[rule_format, of ?work]
  note f = f0[rule_format, of Info "[]" "''working''"]
  have g: "chindings (getLogger example_scoped) = [(''request.id'', JStr ''abc-123'')]"
    by (simp add: example_scoped_def example_empty_store_def getLogger_def getStore_def Map_get_def
        Map_set_def new_Map_def init_def child_def logger_def)
  have "out (snd (withLogContext ?f1 (withLogContext ?f2 ?work) example_scoped))
          = out (pino_write Info (getLogger s_in) [] ''working'' s_in)"
    unfolding run by (simp add: pino_info_def)
  then show ?thesis by (simp add: f g)
qed

text \<open>
  C7. There is one state in which every callback given to \<^verbatim>\<open>withLogContext\<close> starts; the
  binder has written no line, recorded no rejection and touched no suspended chain, no
  response and no existing store to reach it. What the callback throws is thrown by
  \<^verbatim>\<open>withLogContext\<close> unchanged and what it returns (a promise, rejected or not, included)
  is returned unchanged; in both cases the state is the one the callback left, with the
  store of the caller current again.
\<close>

theorem withLogContext_propagates:
  "\<exists>s_in.
     out s_in = out s \<and> unhandled s_in = unhandled s \<and> tasks s_in = tasks s \<and>
     responses s_in = responses s \<and>
     (\<forall>a<next_addr s. heap s_in a = heap s a) \<and>
     (\<forall>(callback :: state \<Rightarrow> (js_error + 'a) \<times> state) e s'. callback s_in = (Inl e, s') \<longrightarrow>
        withLogContext data callback s = (Inl e, s'\<lparr>current := current s\<rparr>)) \<and>
     (\<forall>(callback :: state \<Rightarrow> (js_error + 'a) \<times> state) v s'. callback s_in = (Inr v, s') \<longrightarrow>
        withLogContext data callback s = (Inr v, s'\<lparr>current := current s\<rparr>))"
proof -
  define s_in where "s_in = s\<lparr>next_addr := Suc (next_addr s),
       heap := (heap s)(next_addr s := AList.update ''logger'' (child (getLogger s) data)
                  (case current s of None \<Rightarrow> [] | Some a \<Rightarrow> heap s a)),
       current := Some (next_addr s)\<rparr>"
  have run: "withLogContext data callback s = (r, s'\<lparr>current := current s\<rparr>)"
    if "callback s_in = (r, s')" for callback :: "state \<Rightarrow> (js_error + 'a) \<times> state" and r s'
    unfolding withLogContext_unfold s_in_def[symmetric] by (simp add: that)
  have a: "out s_in = out s" "unhandled s_in = unhandled s" "tasks s_in = tasks s"
    "responses s_in = responses s" "\<forall>a<next_addr s. heap s_in a = heap s a"
    by (simp_all add: s_in_def)
  show ?thesis
    apply (rule exI[of _ s_in])
    apply (intro conjI)
    subgoal by (rule a)
    subgoal by (rule a)
    subgoal by (rule a)
    subgoal by (rule a)
    subgoal by (rule a)
    subgoal by (intro allI impI, erule run)
    subgoal by (intro allI impI, erule run)
    done
qed

theorem withLogContext_propagates_witness:
  "fst (withLogContext [(''user.id'', JNum 7)] example_throwing example_scoped)
     = Inl (JsError ''Error'' ''boom'') \<and>
   current (snd (withLogContext [(''user.id'', JNum 7)] example_throwing example_scoped))
     = current example_scoped \<and>
   length (out (snd (withLogContext [(''user.id'', JNum 7)] example_throwing example_scoped)))
     = Suc (length (out example_scoped))"
proof -
  from withLogContext_propagates[of example_scoped "[(''user.id'', JNum 7)]"]
  obtain s_in where o: "out s_in = out example_scoped"
    and t0: "\<forall>(callback :: state \<Rightarrow> (js_error + unit) \<times> state) e s'. callback s_in = (Inl e, s') \<longrightarrow>
        withLogContext [(''user.id'', JNum 7)] callback example_scoped
          = (Inl e, s'\<lparr>current := current example_scoped\<rparr>)"
    by (elim exE conjE)
  have "example_throwing s_in = (Inl (JsError ''Error'' ''boom''), pino_info (getLogger s_in) [] ''working'' s_in)"
    by (simp add: example_throwing_def)
  from t0[rule_format, of example_throwing, OF this] o show ?thesis
    by (simp add: pino_info_def pino_write_def)
qed

text \<open>
  C8. \<^verbatim>\<open>withLogContext(data, callback)\<close> writes to no store that exists: the callback
  starts with a new store as the current one, every other store is as it was (so is the
  caller's, whose reference is an allocated one), and the new store holds the entries of
  the caller's store with \<^verbatim>\<open>logger\<close> set to a child logger whose bindings are the parent's
  followed by \<^verbatim>\<open>data\<close>. Loggers are values and \<^verbatim>\<open>child\<close> builds a new one. After the call
  the caller's store is current again, and when the callback has left the caller's
  store as it was, \<^verbatim>\<open>getLogger()\<close> returns to the caller the logger it returned before.
\<close>

theorem withLogContext_frame:
  "\<exists>s_in.
     (\<forall>callback :: state \<Rightarrow> (js_error + 'a) \<times> state. withLogContext data callback s =
        (case callback s_in of (r, s') \<Rightarrow> (r, s'\<lparr>current := current s\<rparr>))) \<and>
     getStore s_in = Some (next_addr s) \<and> next_addr s_in = Suc (next_addr s) \<and>
     (\<forall>a. a \<noteq> next_addr s \<longrightarrow> heap s_in a = heap s a) \<and>
     (\<forall>a. getStore s = Some a \<and> a < next_addr s \<longrightarrow> heap s_in a = heap s a) \<and>
     heap s_in (next_addr s) =
       AList.update ''logger'' (child (getLogger s) data)
         (case getStore s of None \<Rightarrow> [] | Some a \<Rightarrow> heap s a) \<and>
     chindings (child (getLogger s) data) = chindings (getLogger s) @ data \<and>
     (\<forall>callback :: state \<Rightarrow> (js_error + 'a) \<times> state.
        getStore (snd (withLogContext data callback s)) = getStore s) \<and>
     (\<forall>callback :: state \<Rightarrow> (js_error + 'a) \<times> state.
        (\<forall>a. getStore s = Some a \<longrightarrow> heap (snd (callback s_in)) a = heap s a) \<longrightarrow>
        getLogger (snd (withLogContext data callback s)) = getLogger s)"
proof -
  define s_in where "s_in = s\<lparr>next_addr := Suc (next_addr s),
       heap := (heap s)(next_addr s := AList.update ''logger'' (child (getLogger s) data)
                  (case current s of None \<Rightarrow> [] | Some a \<Rightarrow> heap s a)),
       current := Some (next_addr s)\<rparr>"
  have run: "withLogContext data callback s =
        (case callback s_in of (r, s') \<Rightarrow> (r, s'\<lparr>current := current s\<rparr>))"
    for callback :: "state \<Rightarrow> (js_error + 'a) \<times> state"
    unfolding withLogContext_unfold s_in_def[symmetric] ..
  have a: "getStore s_in = Some (next_addr s)" "next_addr s_in = Suc (next_addr s)"
    "\<forall>a. a \<noteq> next_addr s \<longrightarrow> heap s_in a = heap s a"
    "\<forall>a. getStore s = Some a \<and> a < next_addr s \<longrightarrow> heap s_in a = heap s a"
    "heap s_in (next_addr s) =
       AList.update ''logger'' (child (getLogger s) data)
         (case getStore s of None \<Rightarrow> [] | Some a \<Rightarrow> heap s a)"
    "chindings (child (getLogger s) data) = chindings (getLogger s) @ data"
    by (simp_all add: s_in_def getStore_def child_def)
  have b: "getStore (snd (withLogContext data callback s)) = getStore s"
    for callback :: "state \<Rightarrow> (js_error + 'a) \<times> state"
    unfolding run by (simp add: getStore_def split: prod.splits)
  have c: "getLogger (snd (withLogContext data callback s)) = getLogger s"
    if "\<forall>a. getStore s = Some a \<longrightarrow> heap (snd (callback s_in)) a = heap s a"
    for callback :: "state \<Rightarrow> (js_error + 'a) \<times> state"
    using that unfolding run
    by (auto simp: getLogger_def getStore_def Map_get_def split: prod.splits option.splits)
  show ?thesis
    apply (rule exI[of _ s_in])
    apply (intro conjI)
    subgoal by (rule allI, rule run)
    subgoal by (rule a)
    subgoal by (rule a)
    subgoal by (rule a)
    subgoal by (rule a)
    subgoal by (rule a)
    subgoal by (rule a)
    subgoal by (rule allI, rule b)
    subgoal by (intro allI impI, erule c)
    done
qed

theorem withLogContext_frame_witness:
  "getStore example_scoped = Some 0 \<and> 0 < next_addr example_scoped \<and>
   getStore (snd (withLogContext [(''user.id'', JNum 7)] example_throwing example_scoped)) = Some 0 \<and>
   getLogger (snd (withLogContext [(''user.id'', JNum 7)] example_throwing example_scoped))
     = getLogger example_scoped \<and>
   chindings (getLogger example_scoped) = [(''request.id'', JStr ''abc-123'')]"
proof -
  have g: "getStore example_scoped = Some 0" "next_addr example_scoped = 1"
    "chindings (getLogger example_scoped) = [(''request.id'', JStr ''abc-123'')]"
    by (simp_all add: example_scoped_def example_empty_store_def getLogger_def getStore_def Map_get_def
        Map_set_def new_Map_def init_def child_def logger_def)
  from withLogContext_frame[of "[(''user.id'', JNum 7)]" example_scoped]
  obtain s_in where
    h: "\<forall>a. a \<noteq> next_addr example_scoped \<longrightarrow> heap s_in a = heap example_scoped a"
    and st: "\<forall>callback :: state \<Rightarrow> (js_error + unit) \<times> state.
        getStore (snd (withLogContext [(''user.id'', JNum 7)] callback example_scoped)) = getStore example_scoped"
    and lg: "\<forall>callback :: state \<Rightarrow> (js_error + unit) \<times> state.
        (\<forall>a. getStore example_scoped = Some a \<longrightarrow> heap (snd (callback s_in)) a = heap example_scoped a) \<longrightarrow>
        getLogger (snd (withLogContext [(''user.id'', JNum 7)] callback example_scoped)) = getLogger example_scoped"
    by (elim exE conjE)
  have "heap (snd (example_throwing s_in)) 0 = heap example_scoped 0"
    using h g by (simp add: example_throwing_def pino_info_def pino_write_def)
  then have "\<forall>a. getStore example_scoped = Some a \<longrightarrow> heap (snd (example_throwing s_in)) a = heap example_scoped a"
    by (simp add: g)
  with lg[rule_format, of example_throwing]
  have "getLogger (snd (withLogContext [(''user.id'', JNum 7)] example_throwing example_scoped))
     = getLogger example_scoped" by simp
  with st[rule_format, of example_throwing] g show ?thesis by simp
qed

text \<open>
  C4. The completion hook writes one line, through the logger it closes over, whose level
  is error when the status code is at least 500, warn when it is at least 400 and below
  500, and info otherwise.
\<close>

theorem completion_severity:
  "out (on_finish start reqLogger res s) = out s @ [last (out (on_finish start reqLogger res s))] \<and>
   line_fields (last (out (on_finish start reqLogger res s))) =
     chindings reqLogger @ [(''duration_ms'', JNum (clock s - start)),
                            (''status_code'', JNum (of_int (statusCode (responses s res))))] \<and>
   (500 \<le> statusCode (responses s res) \<longrightarrow>
      level (last (out (on_finish start reqLogger res s))) = Error) \<and>
   (400 \<le> statusCode (responses s res) \<and> statusCode (responses s res) < 500 \<longrightarrow>
      level (last (out (on_finish start reqLogger res s))) = Warn) \<and>
   (statusCode (responses s res) < 400 \<longrightarrow>
      level (last (out (on_finish start reqLogger res s))) = Info)"
  by (simp add: on_finish_def performance_now_def pino_error_def pino_warn_def pino_info_def
      pino_write_def Let_def)

theorem completion_severity_witness:
  "level (last (out (on_finish 0 logger 0 (example_status 200)))) = Info \<and>
   level (last (out (on_finish 0 logger 0 (example_status 399)))) = Info \<and>
   level (last (out (on_finish 0 logger 0 (example_status 400)))) = Warn \<and>
   level (last (out (on_finish 0 logger 0 (example_status 404)))) = Warn \<and>
   level (last (out (on_finish 0 logger 0 (example_status 499)))) = Warn \<and>
   level (last (out (on_finish 0 logger 0 (example_status 500)))) = Error"
proof -
  have c: "statusCode (responses (example_status c) 0) = c" for c
    by (simp add: example_status_def)
  show ?thesis
    using completion_severity[of 0 logger 0 "example_status 200"]
      completion_severity[of 0 logger 0 "example_status 399"]
      completion_severity[of 0 logger 0 "example_status 400"]
      completion_severity[of 0 logger 0 "example_status 404"]
      completion_severity[of 0 logger 0 "example_status 499"]
      completion_severity[of 0 logger 0 "example_status 500"]
    unfolding c by simp
qed

text \<open>
  C5. \<^verbatim>\<open>getLogger()\<close> returns the base logger when no store is current and when the
  current store has no \<^verbatim>\<open>logger\<close> entry. It is a total function of the state: it has no
  error result and does not suspend.
\<close>

theorem getLogger_fallback:
  "(getStore s = None \<longrightarrow> getLogger s = logger) \<and>
   (\<forall>a. getStore s = Some a \<and> Map_get a ''logger'' s = None \<longrightarrow> getLogger s = logger)"
  by (simp add: getLogger_def)

theorem getLogger_fallback_witness:
  "getStore (st (init example_gen)) = None \<and> getLogger (st (init example_gen)) = logger \<and>
   getStore example_empty_store = Some 0 \<and> Map_get 0 ''logger'' example_empty_store = None \<and>
   getLogger example_empty_store = logger"
proof -
  have a: "getStore (st (init example_gen)) = None"
    and b: "getStore example_empty_store = Some 0" "Map_get 0 ''logger'' example_empty_store = None"
    by (simp_all add: init_def example_empty_store_def getStore_def Map_get_def new_Map_def)
  from getLogger_fallback[of "st (init example_gen)"] getLogger_fallback[of example_empty_store] a b
  show ?thesis by blast
qed

end
